theory Spec2Isabelle
  imports Main
begin

section \<open>Memory, exceptions and element types\<close>

text \<open>
  The model of \<^verbatim>\<open>src/advanced-vector/vector.h\<close>. The members \<^verbatim>\<open>buffer_\<close>, \<^verbatim>\<open>capacity_\<close>,
  \<^verbatim>\<open>data_\<close> and \<^verbatim>\<open>size_\<close> are the fields \<open>buffer'\<close>, \<open>capacity'\<close>, \<open>data'\<close> and \<open>size'\<close>.

  Raw memory is a heap of blocks, one per successful \<^verbatim>\<open>operator new\<close>. A block is a list
  of slots; a slot is \<open>None\<close> while it is raw and \<open>Some v\<close> while it holds a live
  object of value \<open>v\<close>. A freed block is \<open>None\<close> in the heap and its index is never
  handed out again. A \<^verbatim>\<open>T*\<close> is \<open>Null\<close>, \<open>Ptr b i\<close> (slot \<open>i\<close> of block \<open>b\<close>, or one
  past its end), or \<open>Wild\<close> (the result of pointer arithmetic that leaves its array).

  A call has one of three outcomes: it returns a value, an exception leaves it, or its
  behaviour is undefined (an access through a pointer that designates no slot, a
  destructor run on raw memory, \<^verbatim>\<open>operator delete\<close> on something \<^verbatim>\<open>operator new\<close>
  did not return, a failed \<^verbatim>\<open>assert\<close>).

  Which of the potentially-throwing calls fail is an input: \<open>faults\<close> lists the outcomes
  of the successive potentially-throwing calls (\<open>True\<close>: this call throws); once the list
  is used up nothing throws any more. "Fails on its K-th invocation" is
  \<open>replicate (K - 1) False @ [True]\<close>.

  \<^verbatim>\<open>Vector\<close> objects that the code compares by address (\<^verbatim>\<open>this != &other\<close>) live in
  the store \<open>vectors\<close>, addressed by a number; function-local objects
  (\<^verbatim>\<open>new_data\<close>, \<^verbatim>\<open>other_copy\<close>, \<^verbatim>\<open>temp\<close>) are values.

  Counts of type \<^verbatim>\<open>size_t\<close> are natural numbers: a buffer of \<^verbatim>\<open>capacity_\<close> slots lies in
  a 64-bit address space, so \<^verbatim>\<open>size_ * 2\<close> and \<^verbatim>\<open>++size_\<close> do not wrap; subtractions
  have their wrap-around written out. The byte count \<^verbatim>\<open>n * sizeof(T)\<close> of an allocation
  is a 64-bit \<^verbatim>\<open>size_t\<close> product and wraps: the block that \<^verbatim>\<open>operator new\<close> returns
  has room for as many objects as fit into the wrapped byte count. The
  \<^verbatim>\<open>int pos_index\<close> of \<^verbatim>\<open>Emplace\<close> and \<^verbatim>\<open>Erase\<close> is a 32-bit integer, with its
  truncation.
\<close>

datatype ptr = Null | Ptr nat nat | Wild

datatype exn = bad_alloc | element_failure

datatype ('r, 's) result = Undefined | Raise exn 's | Return 'r 's

record RawMemory =
  buffer' :: ptr
  capacity' :: nat

record Vector =
  data' :: RawMemory
  size' :: nat

record 'a world =
  heap :: "'a option list option list"
  vectors :: "nat \<Rightarrow> Vector"
  faults :: "bool list"

text \<open>
  What the code asks of the element type \<^verbatim>\<open>T\<close>: \<^verbatim>\<open>sizeof(T)\<close>, the two traits of the
  \<^verbatim>\<open>if constexpr\<close>, the value of \<^verbatim>\<open>T()\<close>, and the state a move leaves its source in
  (the identity for \<^verbatim>\<open>int\<close>, the empty string for \<^verbatim>\<open>std::string\<close>).
\<close>

record 'a elem_type =
  sizeof' :: nat
  is_nothrow_move_constructible :: bool
  is_copy_constructible :: bool
  value_initialized :: 'a
  moved_from :: "'a \<Rightarrow> 'a"

definition seq :: "('s \<Rightarrow> ('r, 's) result) \<Rightarrow> ('r \<Rightarrow> 's \<Rightarrow> ('q, 's) result) \<Rightarrow> 's \<Rightarrow> ('q, 's) result" where
  "seq m f s = (case m s of Undefined \<Rightarrow> Undefined | Raise e s' \<Rightarrow> Raise e s' | Return r s' \<Rightarrow> f r s')"

text \<open>\<^verbatim>\<open>try { m } catch (...) { h }\<close>\<close>

definition catch_all :: "('s \<Rightarrow> ('r, 's) result) \<Rightarrow> (exn \<Rightarrow> 's \<Rightarrow> ('r, 's) result) \<Rightarrow> 's \<Rightarrow> ('r, 's) result" where
  "catch_all m h s = (case m s of Raise e s' \<Rightarrow> h e s' | r \<Rightarrow> r)"

definition may_throw :: "exn \<Rightarrow> 'a world \<Rightarrow> (unit, 'a world) result" where
  "may_throw e w =
     (case faults w of
        [] \<Rightarrow> Return () w
      | f # fs \<Rightarrow> if f then Raise e (w\<lparr>faults := fs\<rparr>) else Return () (w\<lparr>faults := fs\<rparr>))"

subsection \<open>Pointers\<close>

text \<open>\<^verbatim>\<open>p + k\<close>\<close>

definition ptr_plus :: "ptr \<Rightarrow> int \<Rightarrow> ptr" where
  "ptr_plus p k =
     (case p of
        Null \<Rightarrow> if k = 0 then Null else Wild
      | Ptr b i \<Rightarrow> if 0 \<le> int i + k then Ptr b (nat (int i + k)) else Wild
      | Wild \<Rightarrow> Wild)"

text \<open>\<^verbatim>\<open>p - q\<close>, defined for two pointers into one array\<close>

definition ptr_diff :: "ptr \<Rightarrow> ptr \<Rightarrow> int option" where
  "ptr_diff p q =
     (case (p, q) of
        (Null, Null) \<Rightarrow> Some 0
      | (Ptr b i, Ptr c j) \<Rightarrow> if b = c then Some (int i - int j) else None
      | _ \<Rightarrow> None)"

text \<open>The conversion of a \<^verbatim>\<open>ptrdiff_t\<close> to \<^verbatim>\<open>int\<close>.\<close>

definition to_int :: "int \<Rightarrow> int" where
  "to_int d = (d + 2 ^ 31) mod 2 ^ 32 - 2 ^ 31"

text \<open>\<^verbatim>\<open>a - b\<close> on \<^verbatim>\<open>size_t\<close>\<close>

definition size_t_minus :: "nat \<Rightarrow> nat \<Rightarrow> nat" where
  "size_t_minus a b = (if b \<le> a then a - b else a + 2 ^ 64 - b)"

text \<open>\<^verbatim>\<open>a - k\<close> for a \<^verbatim>\<open>size_t a\<close> and an \<^verbatim>\<open>int k\<close>: \<open>k\<close> is converted to \<^verbatim>\<open>size_t\<close> first.\<close>

definition size_t_minus_int :: "nat \<Rightarrow> int \<Rightarrow> nat" where
  "size_t_minus_int a k = (if 0 \<le> k \<and> k \<le> int a then a - nat k else nat ((int a - k) mod 2 ^ 64))"

text \<open>\<^verbatim>\<open>a * b\<close> on \<^verbatim>\<open>size_t\<close>\<close>

definition size_t_times :: "nat \<Rightarrow> nat \<Rightarrow> nat" where
  "size_t_times a b = (a * b) mod 2 ^ 64"

subsection \<open>Slots\<close>

text \<open>The slot a pointer designates: \<open>None\<close> when it designates none.\<close>

definition slot :: "'a world \<Rightarrow> ptr \<Rightarrow> 'a option option" where
  "slot w p =
     (case p of
        Ptr b i \<Rightarrow>
          if b < length (heap w) then
            (case heap w ! b of
               Some blk \<Rightarrow> if i < length blk then Some (blk ! i) else None
             | None \<Rightarrow> None)
          else None
      | _ \<Rightarrow> None)"

definition put :: "ptr \<Rightarrow> 'a option \<Rightarrow> 'a world \<Rightarrow> 'a world" where
  "put p s w =
     (case p of
        Ptr b i \<Rightarrow> w\<lparr>heap := (heap w)[b := map_option (\<lambda>blk. blk[i := s]) (heap w ! b)]\<rparr>
      | _ \<Rightarrow> w)"

text \<open>An object of value \<open>v\<close> starts to live in the slot at \<open>p\<close>.\<close>

definition construct_at :: "ptr \<Rightarrow> 'a \<Rightarrow> 'a world \<Rightarrow> (unit, 'a world) result" where
  "construct_at p v w = (case slot w p of None \<Rightarrow> Undefined | Some _ \<Rightarrow> Return () (put p (Some v) w))"

text \<open>\<^verbatim>\<open>std::destroy_at(p)\<close>: the destructor of the object at \<open>p\<close>; it does not throw.\<close>

definition destroy_at :: "ptr \<Rightarrow> 'a world \<Rightarrow> (unit, 'a world) result" where
  "destroy_at p w = (case slot w p of Some (Some v) \<Rightarrow> Return () (put p None w) | _ \<Rightarrow> Undefined)"

text \<open>
  \<^verbatim>\<open>operator new(count)\<close>: a new block of \<open>count\<close> bytes, or \<^verbatim>\<open>bad_alloc\<close>. As storage
  for objects of \<open>sz\<close> bytes each, the block has \<open>count div sz\<close> slots. Then
  \<^verbatim>\<open>operator delete\<close>.
\<close>

definition operator_new :: "nat \<Rightarrow> nat \<Rightarrow> 'a world \<Rightarrow> (ptr, 'a world) result" where
  "operator_new count sz =
     seq (may_throw bad_alloc)
       (\<lambda>_ w. Return (Ptr (length (heap w)) 0) (w\<lparr>heap := heap w @ [Some (replicate (count div sz) None)]\<rparr>))"

definition operator_delete :: "ptr \<Rightarrow> 'a world \<Rightarrow> (unit, 'a world) result" where
  "operator_delete p w =
     (case p of
        Null \<Rightarrow> Return () w
      | Ptr b i \<Rightarrow>
          if i = 0 \<and> b < length (heap w) \<and> heap w ! b \<noteq> None
          then Return () (w\<lparr>heap := (heap w)[b := None]\<rparr>)
          else Undefined
      | Wild \<Rightarrow> Undefined)"

subsection \<open>The operations of the element type\<close>

text \<open>
  \<^verbatim>\<open>T(std::forward<Args>(args)...)\<close>: \<open>x\<close> is the value the constructor call builds. The
  arguments are not elements of the vector that is being changed.
\<close>

definition T_ctor :: "'a \<Rightarrow> 'a world \<Rightarrow> ('a, 'a world) result" where
  "T_ctor x = seq (may_throw element_failure) (\<lambda>_. Return x)"

definition T_value_init :: "'a elem_type \<Rightarrow> 'a world \<Rightarrow> ('a, 'a world) result" where
  "T_value_init T = seq (may_throw element_failure) (\<lambda>_. Return (value_initialized T))"

definition T_copy_ctor :: "ptr \<Rightarrow> 'a world \<Rightarrow> ('a, 'a world) result" where
  "T_copy_ctor src w =
     (case slot w src of
        Some (Some v) \<Rightarrow> seq (may_throw element_failure) (\<lambda>_. Return v) w
      | _ \<Rightarrow> Undefined)"

text \<open>A move constructor that throws is taken to leave its source as it was.\<close>

definition T_move_ctor :: "'a elem_type \<Rightarrow> ptr \<Rightarrow> 'a world \<Rightarrow> ('a, 'a world) result" where
  "T_move_ctor T src w =
     (case slot w src of
        Some (Some v) \<Rightarrow>
          seq (if is_nothrow_move_constructible T then Return () else may_throw element_failure)
            (\<lambda>_ w'. Return v (put src (Some (moved_from T v)) w')) w
      | _ \<Rightarrow> Undefined)"

text \<open>\<^verbatim>\<open>*dst = *src\<close>\<close>

definition T_copy_assign :: "ptr \<Rightarrow> ptr \<Rightarrow> 'a world \<Rightarrow> (unit, 'a world) result" where
  "T_copy_assign dst src w =
     (case (slot w src, slot w dst) of
        (Some (Some v), Some (Some _)) \<Rightarrow>
          seq (may_throw element_failure) (\<lambda>_ w'. Return () (put dst (Some v) w')) w
      | _ \<Rightarrow> Undefined)"

text \<open>\<^verbatim>\<open>*dst = std::move(*src)\<close>\<close>

definition T_move_assign :: "'a elem_type \<Rightarrow> ptr \<Rightarrow> ptr \<Rightarrow> 'a world \<Rightarrow> (unit, 'a world) result" where
  "T_move_assign T dst src w =
     (case (slot w src, slot w dst) of
        (Some (Some v), Some (Some _)) \<Rightarrow>
          seq (may_throw element_failure)
            (\<lambda>_ w'. Return () (put src (Some (moved_from T v)) (put dst (Some v) w'))) w
      | _ \<Rightarrow> Undefined)"

text \<open>\<^verbatim>\<open>*dst = std::move(temp)\<close> for a local \<^verbatim>\<open>temp\<close> of value \<open>v\<close>\<close>

definition T_move_assign_local :: "ptr \<Rightarrow> 'a \<Rightarrow> 'a world \<Rightarrow> (unit, 'a world) result" where
  "T_move_assign_local dst v w =
     (case slot w dst of
        Some (Some _) \<Rightarrow> seq (may_throw element_failure) (\<lambda>_ w'. Return () (put dst (Some v) w')) w
      | _ \<Rightarrow> Undefined)"

text \<open>\<^verbatim>\<open>new (p) T(...)\<close>: the constructor runs, then the object lives at \<open>p\<close>.\<close>

definition placement_new :: "ptr \<Rightarrow> ('a world \<Rightarrow> ('a, 'a world) result) \<Rightarrow> 'a world \<Rightarrow> (unit, 'a world) result" where
  "placement_new p ctor = seq ctor (construct_at p)"

subsection \<open>The algorithms of the standard library\<close>

text \<open>
  The \<^verbatim>\<open>uninitialized_\<close> algorithms destroy what they have constructed when a
  construction throws, in an unspecified order, and rethrow.
\<close>

primrec uninitialized_value_construct_n :: "'a elem_type \<Rightarrow> ptr \<Rightarrow> nat \<Rightarrow> 'a world \<Rightarrow> (unit, 'a world) result" where
  "uninitialized_value_construct_n T first 0 = Return ()"
| "uninitialized_value_construct_n T first (Suc n) =
     seq (placement_new first (T_value_init T))
       (\<lambda>_. catch_all (uninitialized_value_construct_n T (ptr_plus first 1) n)
               (\<lambda>e. seq (destroy_at first) (\<lambda>_. Raise e)))"

primrec uninitialized_copy_n :: "ptr \<Rightarrow> nat \<Rightarrow> ptr \<Rightarrow> 'a world \<Rightarrow> (unit, 'a world) result" where
  "uninitialized_copy_n first 0 d_first = Return ()"
| "uninitialized_copy_n first (Suc n) d_first =
     seq (placement_new d_first (T_copy_ctor first))
       (\<lambda>_. catch_all (uninitialized_copy_n (ptr_plus first 1) n (ptr_plus d_first 1))
               (\<lambda>e. seq (destroy_at d_first) (\<lambda>_. Raise e)))"

primrec uninitialized_move_n :: "'a elem_type \<Rightarrow> ptr \<Rightarrow> nat \<Rightarrow> ptr \<Rightarrow> 'a world \<Rightarrow> (unit, 'a world) result" where
  "uninitialized_move_n T first 0 d_first = Return ()"
| "uninitialized_move_n T first (Suc n) d_first =
     seq (placement_new d_first (T_move_ctor T first))
       (\<lambda>_. catch_all (uninitialized_move_n T (ptr_plus first 1) n (ptr_plus d_first 1))
               (\<lambda>e. seq (destroy_at d_first) (\<lambda>_. Raise e)))"

primrec destroy_n :: "ptr \<Rightarrow> nat \<Rightarrow> 'a world \<Rightarrow> (unit, 'a world) result" where
  "destroy_n first 0 = Return ()"
| "destroy_n first (Suc n) = seq (destroy_at first) (\<lambda>_. destroy_n (ptr_plus first 1) n)"

text \<open>The loops of \<^verbatim>\<open>std::copy\<close>, \<^verbatim>\<open>std::move\<close> and \<^verbatim>\<open>std::move_backward\<close> over \<open>n\<close> elements.\<close>

primrec copy_loop :: "nat \<Rightarrow> ptr \<Rightarrow> ptr \<Rightarrow> 'a world \<Rightarrow> (unit, 'a world) result" where
  "copy_loop 0 first d_first = Return ()"
| "copy_loop (Suc n) first d_first =
     seq (T_copy_assign d_first first) (\<lambda>_. copy_loop n (ptr_plus first 1) (ptr_plus d_first 1))"

primrec move_loop :: "'a elem_type \<Rightarrow> nat \<Rightarrow> ptr \<Rightarrow> ptr \<Rightarrow> 'a world \<Rightarrow> (unit, 'a world) result" where
  "move_loop T 0 first d_first = Return ()"
| "move_loop T (Suc n) first d_first =
     seq (T_move_assign T d_first first) (\<lambda>_. move_loop T n (ptr_plus first 1) (ptr_plus d_first 1))"

primrec move_backward_loop :: "'a elem_type \<Rightarrow> nat \<Rightarrow> ptr \<Rightarrow> ptr \<Rightarrow> 'a world \<Rightarrow> (unit, 'a world) result" where
  "move_backward_loop T 0 last' d_last = Return ()"
| "move_backward_loop T (Suc n) last' d_last =
     seq (T_move_assign T (ptr_plus d_last (- 1)) (ptr_plus last' (- 1)))
       (\<lambda>_. move_backward_loop T n (ptr_plus last' (- 1)) (ptr_plus d_last (- 1)))"

text \<open>A range \<open>[first, last)\<close> is valid when both point into one array and \<open>first \<le> last\<close>.\<close>

definition range_length :: "ptr \<Rightarrow> ptr \<Rightarrow> nat option" where
  "range_length first last' =
     (case ptr_diff last' first of None \<Rightarrow> None | Some d \<Rightarrow> if 0 \<le> d then Some (nat d) else None)"

definition std_copy :: "ptr \<Rightarrow> ptr \<Rightarrow> ptr \<Rightarrow> 'a world \<Rightarrow> (unit, 'a world) result" where
  "std_copy first last' d_first =
     (case range_length first last' of None \<Rightarrow> (\<lambda>_. Undefined) | Some n \<Rightarrow> copy_loop n first d_first)"

definition std_move :: "'a elem_type \<Rightarrow> ptr \<Rightarrow> ptr \<Rightarrow> ptr \<Rightarrow> 'a world \<Rightarrow> (unit, 'a world) result" where
  "std_move T first last' d_first =
     (case range_length first last' of None \<Rightarrow> (\<lambda>_. Undefined) | Some n \<Rightarrow> move_loop T n first d_first)"

definition std_move_backward :: "'a elem_type \<Rightarrow> ptr \<Rightarrow> ptr \<Rightarrow> ptr \<Rightarrow> 'a world \<Rightarrow> (unit, 'a world) result" where
  "std_move_backward T first last' d_last =
     (case range_length first last' of None \<Rightarrow> (\<lambda>_. Undefined) | Some n \<Rightarrow> move_backward_loop T n last' d_last)"

section \<open>RawMemory\<close>

text \<open>\<^verbatim>\<open>n != 0 ? static_cast<T*>(operator new(n * sizeof(T))) : nullptr\<close>\<close>

definition Allocate :: "'a elem_type \<Rightarrow> nat \<Rightarrow> 'a world \<Rightarrow> (ptr, 'a world) result" where
  "Allocate T n = (if n \<noteq> 0 then operator_new (size_t_times n (sizeof' T)) (sizeof' T) else Return Null)"

definition Deallocate :: "ptr \<Rightarrow> 'a world \<Rightarrow> (unit, 'a world) result" where
  "Deallocate buf = operator_delete buf"

text \<open>\<^verbatim>\<open>RawMemory() = default\<close>\<close>

definition RawMemory_default :: RawMemory where
  "RawMemory_default = \<lparr>buffer' = Null, capacity' = 0\<rparr>"

text \<open>\<^verbatim>\<open>explicit RawMemory(size_t capacity)\<close>\<close>

definition RawMemory_ctor :: "'a elem_type \<Rightarrow> nat \<Rightarrow> 'a world \<Rightarrow> (RawMemory, 'a world) result" where
  "RawMemory_ctor T capacity = seq (Allocate T capacity) (\<lambda>b. Return \<lparr>buffer' = b, capacity' = capacity\<rparr>)"

text \<open>\<^verbatim>\<open>~RawMemory()\<close>\<close>

definition RawMemory_dtor :: "RawMemory \<Rightarrow> 'a world \<Rightarrow> (unit, 'a world) result" where
  "RawMemory_dtor m = Deallocate (buffer' m)"

definition GetAddress :: "RawMemory \<Rightarrow> ptr" where
  "GetAddress m = buffer' m"

definition RawMemory_Capacity :: "RawMemory \<Rightarrow> nat" where
  "RawMemory_Capacity m = capacity' m"

text \<open>\<^verbatim>\<open>operator+\<close> and \<^verbatim>\<open>operator[]\<close>, with their assertions; \<open>None\<close> when the assertion fails.\<close>

definition RawMemory_plus :: "RawMemory \<Rightarrow> nat \<Rightarrow> ptr option" where
  "RawMemory_plus m offset = (if offset \<le> capacity' m then Some (ptr_plus (buffer' m) (int offset)) else None)"

definition RawMemory_index :: "RawMemory \<Rightarrow> nat \<Rightarrow> ptr option" where
  "RawMemory_index m index = (if index < capacity' m then Some (ptr_plus (buffer' m) (int index)) else None)"

text \<open>\<^verbatim>\<open>a.Swap(b)\<close>: the new values of \<open>a\<close> and \<open>b\<close>.\<close>

definition RawMemory_Swap :: "RawMemory \<Rightarrow> RawMemory \<Rightarrow> RawMemory \<times> RawMemory" where
  "RawMemory_Swap a b =
     (a\<lparr>buffer' := buffer' b, capacity' := capacity' b\<rparr>, b\<lparr>buffer' := buffer' a, capacity' := capacity' a\<rparr>)"

definition set_data :: "nat \<Rightarrow> RawMemory \<Rightarrow> 'a world \<Rightarrow> 'a world" where
  "set_data this m w = w\<lparr>vectors := (vectors w)(this := (vectors w this)\<lparr>data' := m\<rparr>)\<rparr>"

definition set_size :: "nat \<Rightarrow> nat \<Rightarrow> 'a world \<Rightarrow> 'a world" where
  "set_size this n w = w\<lparr>vectors := (vectors w)(this := (vectors w this)\<lparr>size' := n\<rparr>)\<rparr>"

text \<open>
  \<^verbatim>\<open>RawMemory::operator=(RawMemory&&)\<close> on the members \<^verbatim>\<open>data_\<close> of the vectors at
  \<open>this\<close> and \<open>rhs\<close>, statement by statement. The two members are one object exactly when
  the two vectors are.
\<close>

definition RawMemory_move_assign :: "nat \<Rightarrow> nat \<Rightarrow> 'a world \<Rightarrow> 'a world" where
  "RawMemory_move_assign this rhs w =
     (if this \<noteq> rhs then
        (let w1 = set_data this ((data' (vectors w this))\<lparr>buffer' := buffer' (data' (vectors w rhs))\<rparr>) w;
             w2 = set_data this ((data' (vectors w1 this))\<lparr>capacity' := RawMemory_Capacity (data' (vectors w1 rhs))\<rparr>) w1;
             w3 = set_data rhs ((data' (vectors w2 rhs))\<lparr>buffer' := Null\<rparr>) w2;
             w4 = set_data rhs ((data' (vectors w3 rhs))\<lparr>capacity' := 0\<rparr>) w3
         in w4)
      else w)"

section \<open>Vector\<close>

definition Size :: "nat \<Rightarrow> 'a world \<Rightarrow> nat" where
  "Size this w = size' (vectors w this)"

definition Capacity :: "nat \<Rightarrow> 'a world \<Rightarrow> nat" where
  "Capacity this w = RawMemory_Capacity (data' (vectors w this))"

definition begin' :: "Vector \<Rightarrow> ptr" where
  "begin' v = GetAddress (data' v)"

definition end' :: "Vector \<Rightarrow> ptr" where
  "end' v = ptr_plus (GetAddress (data' v)) (int (size' v))"

text \<open>\<^verbatim>\<open>operator[]\<close>: a reference to the element.\<close>

definition Vector_index :: "nat \<Rightarrow> nat \<Rightarrow> 'a world \<Rightarrow> ptr option" where
  "Vector_index this index w = RawMemory_index (data' (vectors w this)) index"

text \<open>\<^verbatim>\<open>~Vector()\<close> of a local vector, and then the destructor of its member.\<close>

definition Vector_dtor :: "Vector \<Rightarrow> 'a world \<Rightarrow> (unit, 'a world) result" where
  "Vector_dtor v = seq (destroy_n (GetAddress (data' v)) (size' v)) (\<lambda>_. RawMemory_dtor (data' v))"

text \<open>\<^verbatim>\<open>Vector() = default\<close>\<close>

definition Vector_default :: Vector where
  "Vector_default = \<lparr>data' = RawMemory_default, size' = 0\<rparr>"

text \<open>
  \<^verbatim>\<open>explicit Vector(size_t size)\<close> and \<^verbatim>\<open>Vector(const Vector&)\<close>: the vector they build.
  When the body throws, the member \<^verbatim>\<open>data_\<close> is destroyed.
\<close>

definition Vector_ctor_size :: "'a elem_type \<Rightarrow> nat \<Rightarrow> 'a world \<Rightarrow> (Vector, 'a world) result" where
  "Vector_ctor_size T n =
     seq (RawMemory_ctor T n) (\<lambda>m.
       seq (catch_all (uninitialized_value_construct_n T (GetAddress m) n)
              (\<lambda>e. seq (RawMemory_dtor m) (\<lambda>_. Raise e)))
         (\<lambda>_. Return \<lparr>data' = m, size' = n\<rparr>))"

definition Vector_copy_ctor :: "'a elem_type \<Rightarrow> Vector \<Rightarrow> 'a world \<Rightarrow> (Vector, 'a world) result" where
  "Vector_copy_ctor T other =
     seq (RawMemory_ctor T (size' other)) (\<lambda>m.
       seq (catch_all (uninitialized_copy_n (GetAddress (data' other)) (size' other) (GetAddress m))
              (\<lambda>e. seq (RawMemory_dtor m) (\<lambda>_. Raise e)))
         (\<lambda>_. Return \<lparr>data' = m, size' = size' other\<rparr>))"

text \<open>The constructors on the object at \<open>this\<close>.\<close>

definition construct_Vector :: "nat \<Rightarrow> ('a world \<Rightarrow> (Vector, 'a world) result) \<Rightarrow> 'a world \<Rightarrow> (unit, 'a world) result" where
  "construct_Vector this ctor = seq ctor (\<lambda>v w. Return () (w\<lparr>vectors := (vectors w)(this := v)\<rparr>))"

text \<open>\<^verbatim>\<open>Swap\<close>: on two objects of the store, and of the object at \<open>this\<close> with a local vector.\<close>

definition Swap :: "nat \<Rightarrow> nat \<Rightarrow> 'a world \<Rightarrow> (unit, 'a world) result" where
  "Swap this other w =
     (let (a, b) = RawMemory_Swap (data' (vectors w this)) (data' (vectors w other));
          w1 = set_data other b (set_data this a w);
          n = size' (vectors w1 this);
          w2 = set_size this (size' (vectors w1 other)) w1
      in Return () (set_size other n w2))"

definition Swap_local :: "nat \<Rightarrow> Vector \<Rightarrow> 'a world \<Rightarrow> (Vector, 'a world) result" where
  "Swap_local this other w =
     (let (a, b) = RawMemory_Swap (data' (vectors w this)) (data' other);
          n = size' (vectors w this)
      in Return (other\<lparr>data' := b, size' := n\<rparr>) (set_size this (size' other) (set_data this a w)))"

text \<open>\<^verbatim>\<open>data_.Swap(new_data)\<close> for a local \<^verbatim>\<open>new_data\<close>: its new value is returned.\<close>

definition data_Swap :: "nat \<Rightarrow> RawMemory \<Rightarrow> 'a world \<Rightarrow> (RawMemory, 'a world) result" where
  "data_Swap this new_data w =
     (let (a, b) = RawMemory_Swap (data' (vectors w this)) new_data in Return b (set_data this a w))"

text \<open>\<^verbatim>\<open>Vector& operator=(const Vector& other)\<close>\<close>

definition Vector_copy_assign :: "'a elem_type \<Rightarrow> nat \<Rightarrow> nat \<Rightarrow> 'a world \<Rightarrow> (unit, 'a world) result" where
  "Vector_copy_assign T this other w =
     (if this \<noteq> other then
        (let v = vectors w this; ov = vectors w other in
         if size' ov \<le> RawMemory_Capacity (data' v) then
           seq (if size' v \<le> size' ov then
                  seq (std_copy (GetAddress (data' ov)) (ptr_plus (GetAddress (data' ov)) (int (size' v))) (GetAddress (data' v)))
                    (\<lambda>_. uninitialized_copy_n (ptr_plus (GetAddress (data' ov)) (int (size' v)))
                            (size_t_minus (size' ov) (size' v)) (ptr_plus (GetAddress (data' v)) (int (size' v))))
                else
                  seq (std_copy (GetAddress (data' ov)) (ptr_plus (GetAddress (data' ov)) (int (size' ov))) (GetAddress (data' v)))
                    (\<lambda>_. destroy_n (ptr_plus (GetAddress (data' v)) (int (size' ov))) (size_t_minus (size' v) (size' ov))))
             (\<lambda>_ w'. Return () (set_size this (size' (vectors w' other)) w')) w
         else
           seq (Vector_copy_ctor T ov) (\<lambda>other_copy.
             seq (Swap_local this other_copy) (\<lambda>other_copy'. Vector_dtor other_copy')) w)
      else Return () w)"

text \<open>\<^verbatim>\<open>Vector& operator=(Vector&& other) noexcept\<close>\<close>

definition Vector_move_assign :: "nat \<Rightarrow> nat \<Rightarrow> 'a world \<Rightarrow> (unit, 'a world) result" where
  "Vector_move_assign this other w =
     (let w1 = RawMemory_move_assign this other w;
          w2 = set_size this (size' (vectors w1 other)) w1
      in Return () (set_size other 0 w2))"

text \<open>\<^verbatim>\<open>Vector(Vector&& other) noexcept\<close>: the members get their default values first.\<close>

definition Vector_move_ctor :: "nat \<Rightarrow> nat \<Rightarrow> 'a world \<Rightarrow> (unit, 'a world) result" where
  "Vector_move_ctor this other w = Vector_move_assign this other (w\<lparr>vectors := (vectors w)(this := Vector_default)\<rparr>)"

definition Reserve :: "'a elem_type \<Rightarrow> nat \<Rightarrow> nat \<Rightarrow> 'a world \<Rightarrow> (unit, 'a world) result" where
  "Reserve T this new_capacity w =
     (let v = vectors w this in
      if new_capacity \<le> RawMemory_Capacity (data' v) then Return () w
      else
        seq (RawMemory_ctor T new_capacity) (\<lambda>new_data.
          seq (catch_all
                 (seq (if is_nothrow_move_constructible T \<or> \<not> is_copy_constructible T
                       then uninitialized_move_n T (GetAddress (data' v)) (size' v) (GetAddress new_data)
                       else uninitialized_copy_n (GetAddress (data' v)) (size' v) (GetAddress new_data)) (\<lambda>_.
                  seq (destroy_n (GetAddress (data' v)) (size' v)) (\<lambda>_.
                  data_Swap this new_data)))
                 (\<lambda>e. seq (RawMemory_dtor new_data) (\<lambda>_. Raise e)))
            RawMemory_dtor) w)"

definition Resize :: "'a elem_type \<Rightarrow> nat \<Rightarrow> nat \<Rightarrow> 'a world \<Rightarrow> (unit, 'a world) result" where
  "Resize T this new_size w =
     (let v = vectors w this in
      if new_size = size' v then Return () w
      else if new_size < size' v then
        seq (destroy_n (ptr_plus (GetAddress (data' v)) (int new_size)) (size_t_minus (size' v) new_size))
          (\<lambda>_ w'. Return () (set_size this new_size w')) w
      else
        seq (Reserve T this new_size)
          (\<lambda>_ w'. let v' = vectors w' this in
             seq (uninitialized_value_construct_n T (ptr_plus (GetAddress (data' v')) (int (size' v')))
                    (size_t_minus new_size (size' v')))
               (\<lambda>_ w''. Return () (set_size this new_size w'')) w') w)"



text \<open>
  \<^verbatim>\<open>Emplace(const_iterator pos, Args&&... args)\<close>. The count \<^verbatim>\<open>pos_index\<close> that
  \<^verbatim>\<open>uninitialized_move_n\<close> and \<^verbatim>\<open>uninitialized_copy_n\<close> get is an \<^verbatim>\<open>int\<close>: a negative
  count is no iteration.
\<close>

definition Emplace :: "'a elem_type \<Rightarrow> nat \<Rightarrow> ptr \<Rightarrow> 'a \<Rightarrow> 'a world \<Rightarrow> (ptr, 'a world) result" where
  "Emplace T this pos x w =
     (let v = vectors w this in
      case ptr_diff pos (begin' v) of
        None \<Rightarrow> Undefined
      | Some d \<Rightarrow>
         (let pos_index = to_int d in
          seq (if RawMemory_Capacity (data' v) = size' v then
                 seq (RawMemory_ctor T (if size' v = 0 then 1 else size' v * 2)) (\<lambda>new_data.
                   seq (catch_all
                          (seq (placement_new (ptr_plus (GetAddress new_data) pos_index) (T_ctor x)) (\<lambda>_.
                           seq (if is_nothrow_move_constructible T \<or> \<not> is_copy_constructible T
                                then
                                  seq (uninitialized_move_n T (GetAddress (data' v)) (nat pos_index) (GetAddress new_data)) (\<lambda>_.
                                    uninitialized_move_n T (ptr_plus (GetAddress (data' v)) pos_index)
                                      (size_t_minus_int (size' v) pos_index)
                                      (ptr_plus (ptr_plus (GetAddress new_data) pos_index) 1))
                                else
                                  seq (uninitialized_copy_n (GetAddress (data' v)) (nat pos_index) (GetAddress new_data)) (\<lambda>_.
                                    uninitialized_copy_n (ptr_plus (GetAddress (data' v)) pos_index)
                                      (size_t_minus_int (size' v) pos_index)
                                      (ptr_plus (ptr_plus (GetAddress new_data) pos_index) 1))) (\<lambda>_.
                           seq (destroy_n (GetAddress (data' v)) (size' v)) (\<lambda>_.
                           data_Swap this new_data))))
                          (\<lambda>e. seq (RawMemory_dtor new_data) (\<lambda>_. Raise e)))
                     RawMemory_dtor)
               else
                 catch_all
                   (if pos = end' v then placement_new (end' v) (T_ctor x)
                    else
                      seq (T_ctor x) (\<lambda>temp.
                        case RawMemory_index (data' v) (size_t_minus (size' v) 1) of
                          None \<Rightarrow> (\<lambda>_. Undefined)
                        | Some back \<Rightarrow>
                            seq (placement_new (end' v) (T_move_ctor T back)) (\<lambda>_.
                            seq (std_move_backward T (ptr_plus (begin' v) pos_index) (ptr_plus (end' v) (- 1)) (end' v)) (\<lambda>_.
                            T_move_assign_local (ptr_plus (begin' v) pos_index) temp))))
                   (\<lambda>e. seq (operator_delete (end' v)) (\<lambda>_. Raise e)))
            (\<lambda>_ w'. let w'' = set_size this (size' (vectors w' this) + 1) w' in
               Return (ptr_plus (begin' (vectors w'' this)) pos_index) w'') w))"

text \<open>Both overloads of \<^verbatim>\<open>Insert\<close> forward to \<^verbatim>\<open>Emplace\<close>.\<close>

definition Insert :: "'a elem_type \<Rightarrow> nat \<Rightarrow> ptr \<Rightarrow> 'a \<Rightarrow> 'a world \<Rightarrow> (ptr, 'a world) result" where
  "Insert T this pos item = Emplace T this pos item"

definition Erase :: "'a elem_type \<Rightarrow> nat \<Rightarrow> ptr \<Rightarrow> 'a world \<Rightarrow> (ptr, 'a world) result" where
  "Erase T this pos w =
     (let v = vectors w this in
      case ptr_diff pos (begin' v) of
        None \<Rightarrow> Undefined
      | Some d \<Rightarrow>
         (let pos_index = to_int d in
          seq (std_move T (ptr_plus (ptr_plus (begin' v) pos_index) 1) (end' v) (ptr_plus (begin' v) pos_index)) (\<lambda>_.
          seq (destroy_at (ptr_plus (end' v) (- 1))) (\<lambda>_ w'.
            let w'' = set_size this (size_t_minus (size' (vectors w' this)) 1) w' in
            Return (ptr_plus (begin' (vectors w'' this)) pos_index) w'')) w))"

definition PopBack :: "nat \<Rightarrow> 'a world \<Rightarrow> (unit, 'a world) result" where
  "PopBack this w =
     (let v = vectors w this in
      seq (destroy_at (ptr_plus (ptr_plus (GetAddress (data' v)) (int (size' v))) (- 1)))
        (\<lambda>_ w'. Return () (set_size this (size_t_minus (size' (vectors w' this)) 1) w')) w)"

section \<open>The invariant and the contents of a vector\<close>

text \<open>
  The vector at \<open>this\<close> is well formed: it has no buffer, no capacity and no element, or
  its buffer is a whole allocated block of \<open>capacity'\<close> slots, of which the first
  \<open>size'\<close> are live and the others raw.
\<close>

definition vec_inv :: "'a world \<Rightarrow> nat \<Rightarrow> bool" where
  "vec_inv w this =
     (let v = vectors w this in
      case buffer' (data' v) of
        Null \<Rightarrow> capacity' (data' v) = 0 \<and> size' v = 0
      | Ptr b i \<Rightarrow>
          i = 0 \<and> b < length (heap w) \<and>
          (case heap w ! b of
             None \<Rightarrow> False
           | Some blk \<Rightarrow>
               length blk = capacity' (data' v) \<and> size' v \<le> capacity' (data' v) \<and>
               list_all (\<lambda>s. s \<noteq> None) (take (size' v) blk) \<and>
               list_all (\<lambda>s. s = None) (drop (size' v) blk))
      | Wild \<Rightarrow> False)"

text \<open>The slots of the buffer of the vector at \<open>this\<close>, and the values of its elements.\<close>

definition slots :: "'a world \<Rightarrow> nat \<Rightarrow> 'a option list" where
  "slots w this =
     (case buffer' (data' (vectors w this)) of
        Ptr b i \<Rightarrow> if b < length (heap w) then (case heap w ! b of Some blk \<Rightarrow> drop i blk | None \<Rightarrow> []) else []
      | _ \<Rightarrow> [])"

definition elems :: "'a world \<Rightarrow> nat \<Rightarrow> 'a list" where
  "elems w this = map the (take (size' (vectors w this)) (slots w this))"

section \<open>Views of the heap used in the proofs\<close>

text \<open>The blocks of the heap and their lengths, without their contents.\<close>

definition shape :: "'a world \<Rightarrow> nat option list" where
  "shape w = map (map_option length) (heap w)"

text \<open>
  The byte count of \<open>n\<close> objects of the element type is a \<^verbatim>\<open>size_t\<close>:
  \<^verbatim>\<open>n * sizeof(T)\<close> does not wrap.
\<close>

definition allocatable :: "'a elem_type \<Rightarrow> nat \<Rightarrow> bool" where
  "allocatable T n = (0 < sizeof' T \<and> n * sizeof' T < 2 ^ 64)"

text \<open>The function \<open>f\<close> on pointers, with \<open>g 0, \<dots>, g (n - 1)\<close> at the slots \<open>j, \<dots>, j + n - 1\<close> of block \<open>b\<close>.\<close>

definition overlay :: "(ptr \<Rightarrow> 's) \<Rightarrow> nat \<Rightarrow> nat \<Rightarrow> nat \<Rightarrow> (nat \<Rightarrow> 's) \<Rightarrow> ptr \<Rightarrow> 's" where
  "overlay f b j n g q =
     (case q of Ptr c k \<Rightarrow> if c = b \<and> j \<le> k \<and> k < j + n then g (k - j) else f q | _ \<Rightarrow> f q)"

text \<open>
  The growth branch of \<^verbatim>\<open>Emplace\<close>, as it stands in \<open>Emplace_def\<close>, for the vector \<open>v\<close>
  that is at \<open>this\<close> when it starts. The growth branches of \<^verbatim>\<open>PushBack\<close> and
  \<^verbatim>\<open>EmplaceBack\<close> are the instance where \<open>pos_index\<close> is the size (lemma
  \<open>PushBack_growth\<close> below).
\<close>

definition growth :: "'a elem_type \<Rightarrow> Vector \<Rightarrow> nat \<Rightarrow> int \<Rightarrow> 'a \<Rightarrow> 'a world \<Rightarrow> (unit, 'a world) result" where
  "growth T v this pos_index x =
     seq (RawMemory_ctor T (if size' v = 0 then 1 else size' v * 2)) (\<lambda>new_data.
       seq (catch_all
              (seq (placement_new (ptr_plus (GetAddress new_data) pos_index) (T_ctor x)) (\<lambda>_.
               seq (if is_nothrow_move_constructible T \<or> \<not> is_copy_constructible T
                    then
                      seq (uninitialized_move_n T (GetAddress (data' v)) (nat pos_index) (GetAddress new_data)) (\<lambda>_.
                        uninitialized_move_n T (ptr_plus (GetAddress (data' v)) pos_index)
                          (size_t_minus_int (size' v) pos_index)
                          (ptr_plus (ptr_plus (GetAddress new_data) pos_index) 1))
                    else
                      seq (uninitialized_copy_n (GetAddress (data' v)) (nat pos_index) (GetAddress new_data)) (\<lambda>_.
                        uninitialized_copy_n (ptr_plus (GetAddress (data' v)) pos_index)
                          (size_t_minus_int (size' v) pos_index)
                          (ptr_plus (ptr_plus (GetAddress new_data) pos_index) 1))) (\<lambda>_.
               seq (destroy_n (GetAddress (data' v)) (size' v)) (\<lambda>_.
               data_Swap this new_data))))
              (\<lambda>e. seq (RawMemory_dtor new_data) (\<lambda>_. Raise e)))
         RawMemory_dtor)"

text \<open>
  What the operations on elements and on raw memory leave alone: the store of vectors and
  the number of blocks ever allocated. A call keeps them when it does so whether it
  returns or throws.
\<close>

definition kept :: "'a world \<Rightarrow> 'a world \<Rightarrow> bool" where
  "kept w w' = (vectors w' = vectors w \<and> length (heap w') = length (heap w))"

definition keeps :: "('a world \<Rightarrow> ('r, 'a world) result) \<Rightarrow> bool" where
  "keeps m = (\<forall>w. case m w of Undefined \<Rightarrow> True | Raise e w' \<Rightarrow> kept w w' | Return r w' \<Rightarrow> kept w w')"

text \<open>
  A finer view for the calls that write into one block only: the pointer \<open>p\<close> does not
  point into a block other than \<open>b\<close>; the worlds \<open>w\<close> and \<open>w'\<close> differ in block
  \<open>b\<close> and in the failures still scheduled at most; a call changes block \<open>b\<close> at most,
  whether it returns or throws; a call never throws; a call that throws has changed block
  \<open>b\<close> at most.
\<close>

definition in_block :: "nat \<Rightarrow> ptr \<Rightarrow> bool" where
  "in_block b p = (case p of Ptr c i \<Rightarrow> c = b | _ \<Rightarrow> True)"

definition only_block :: "nat \<Rightarrow> 'a world \<Rightarrow> 'a world \<Rightarrow> bool" where
  "only_block b w w' =
     (vectors w' = vectors w \<and> length (heap w') = length (heap w) \<and> (\<forall>c. c \<noteq> b \<longrightarrow> heap w' ! c = heap w ! c))"

definition frame :: "nat \<Rightarrow> ('a world \<Rightarrow> ('r, 'a world) result) \<Rightarrow> bool" where
  "frame b m =
     (\<forall>w. case m w of Undefined \<Rightarrow> True | Raise e w' \<Rightarrow> only_block b w w' | Return r w' \<Rightarrow> only_block b w w')"

definition no_raise :: "('a world \<Rightarrow> ('r, 'a world) result) \<Rightarrow> bool" where
  "no_raise m = (\<forall>w. case m w of Raise e w' \<Rightarrow> False | _ \<Rightarrow> True)"

definition raise_frame :: "nat \<Rightarrow> ('a world \<Rightarrow> ('r, 'a world) result) \<Rightarrow> bool" where
  "raise_frame b m = (\<forall>w. case m w of Raise e w' \<Rightarrow> only_block b w w' | _ \<Rightarrow> True)"

section \<open>Element types and vectors to run the code on\<close>

text \<open>
  \<open>T_int\<close> behaves like \<^verbatim>\<open>int\<close>. \<open>T_move_only\<close> has no copy constructor and a move
  constructor that may throw; \<open>T_copyable\<close> has a copy constructor and a move
  constructor that may throw. A move leaves \<open>0\<close> behind in both.
\<close>

definition T_int :: "int elem_type" where
  "T_int = \<lparr>sizeof' = 4, is_nothrow_move_constructible = True, is_copy_constructible = True,
     value_initialized = 0, moved_from = (\<lambda>x. x)\<rparr>"

definition T_move_only :: "int elem_type" where
  "T_move_only = \<lparr>sizeof' = 4, is_nothrow_move_constructible = False, is_copy_constructible = False,
     value_initialized = 0, moved_from = (\<lambda>x. 0)\<rparr>"

definition T_copyable :: "int elem_type" where
  "T_copyable = \<lparr>sizeof' = 4, is_nothrow_move_constructible = False, is_copy_constructible = True,
     value_initialized = 0, moved_from = (\<lambda>x. 0)\<rparr>"

text \<open>
  The vector \<open>[1, 2, 3]\<close> of capacity \<open>cap\<close> at address \<open>0\<close>, an empty vector at every
  other address, and the fault schedule \<open>fs\<close>.
\<close>

definition world123 :: "nat \<Rightarrow> bool list \<Rightarrow> int world" where
  "world123 cap fs =
     \<lparr>heap = [Some ([Some 1, Some 2, Some 3] @ replicate (cap - 3) None)],
      vectors = (\<lambda>_. Vector_default)(0 := \<lparr>data' = \<lparr>buffer' = Ptr 0 0, capacity' = cap\<rparr>, size' = 3\<rparr>),
      faults = fs\<rparr>"

text \<open>The vector \<open>[1, 9, 2, 3]\<close> of capacity \<open>4\<close> at address \<open>0\<close>.\<close>

definition world1923 :: "int world" where
  "world1923 =
     \<lparr>heap = [Some [Some 1, Some 9, Some 2, Some 3]],
      vectors = (\<lambda>_. Vector_default)(0 := \<lparr>data' = \<lparr>buffer' = Ptr 0 0, capacity' = 4\<rparr>, size' = 4\<rparr>),
      faults = []\<rparr>"

text \<open>The vector of \<open>n\<close> elements \<open>0\<close> and capacity \<open>cap\<close> at address \<open>0\<close>, with no failure scheduled.\<close>

definition world_zeros :: "nat \<Rightarrow> nat \<Rightarrow> int world" where
  "world_zeros n cap =
     \<lparr>heap = [Some (replicate n (Some 0) @ replicate (cap - n) None)],
      vectors = (\<lambda>_. Vector_default)(0 := \<lparr>data' = \<lparr>buffer' = Ptr 0 0, capacity' = cap\<rparr>, size' = n\<rparr>),
      faults = []\<rparr>"

section \<open>Slots, blocks and the algorithms\<close>

lemma nth_upd: "xs[i := x] ! j = (if i = j \<and> i < length xs then x else xs ! j)"
  by (cases "i < length xs") (auto simp: nth_list_update list_update_beyond)

lemma vectors_put [simp]: "vectors (put p s w) = vectors w"
  by (simp add: put_def split: ptr.splits)

lemma faults_put [simp]: "faults (put p s w) = faults w"
  by (simp add: put_def split: ptr.splits)

lemma shape_put [simp]: "shape (put p s w) = shape w"
  by (cases p) (auto simp: put_def shape_def list_eq_iff_nth_eq nth_upd option.map_comp comp_def)

lemma slot_put: "slot (put p s w) q = (if q = p \<and> slot w p \<noteq> None then Some s else slot w q)"
  by (auto simp: put_def slot_def nth_upd split: ptr.splits option.splits)

lemma slot_Null [simp]: "slot w Null = None" and slot_Wild [simp]: "slot w Wild = None"
  by (simp_all add: slot_def)

lemma ptr_plus_Ptr [simp]: "ptr_plus (Ptr b i) (int n) = Ptr b (i + n)"
  by (simp add: ptr_plus_def nat_int_add)

lemma ptr_plus_1 [simp]: "ptr_plus (Ptr b i) 1 = Ptr b (Suc i)"
  by (simp add: ptr_plus_def nat_add_distrib)

lemma ptr_plus_m1: "ptr_plus (Ptr b i) (- 1) = (if i = 0 then Wild else Ptr b (i - 1))"
  by (auto simp add: ptr_plus_def nat_diff_distrib)

lemma slot_faults [simp]: "slot (w\<lparr>faults := f\<rparr>) = slot w"
  by (auto simp: slot_def fun_eq_iff split: ptr.splits)

lemma shape_faults [simp]: "shape (w\<lparr>faults := f\<rparr>) = shape w"
  by (simp add: shape_def)

lemma length_shape [simp]: "length (shape w) = length (heap w)"
  by (simp add: shape_def)

lemma heap_ext:
  assumes "shape w' = shape w" and "slot w' = slot w"
  shows "heap w' = heap w"
proof (rule nth_equalityI)
  show len: "length (heap w') = length (heap w)"
    using assms(1) by (metis length_shape)
  fix b assume b: "b < length (heap w')"
  have sh: "map_option length (heap w' ! b) = map_option length (heap w ! b)"
    using assms(1) b len by (metis shape_def nth_map)
  show "heap w' ! b = heap w ! b"
  proof (cases "heap w ! b")
    case None
    with sh show ?thesis by simp
  next
    case (Some blk)
    with sh obtain blk' where blk': "heap w' ! b = Some blk'" "length blk' = length blk"
      by (cases "heap w' ! b") auto
    have "blk' ! k = blk ! k" if "k < length blk" for k
    proof -
      have "slot w' (Ptr b k) = slot w (Ptr b k)" using assms(2) by simp
      then show ?thesis using that b len Some blk' by (simp add: slot_def)
    qed
    then have "blk' = blk" using blk'(2) by (simp add: list_eq_iff_nth_eq)
    then show ?thesis using Some blk' by simp
  qed
qed

lemma overlay_0 [simp]: "overlay f b j 0 g = f"
  by (auto simp: overlay_def fun_eq_iff split: ptr.splits)

lemma overlay_Suc: "overlay f b j (Suc n) g = overlay (f(Ptr b j := g 0)) b (Suc j) n (\<lambda>k. g (Suc k))"
  by (auto simp: overlay_def fun_eq_iff split: ptr.splits intro!: arg_cong[where f=g])

lemma overlay_upd: "c \<noteq> b \<Longrightarrow> (overlay f b j n g)(Ptr c k := x) = overlay (f(Ptr c k := x)) b j n g"
  by (auto simp: overlay_def fun_eq_iff split: ptr.splits)

lemma overlay_at: "overlay f b j n g (Ptr c k) = (if c = b \<and> j \<le> k \<and> k < j + n then g (k - j) else f (Ptr c k))"
  by (simp add: overlay_def)

lemma step_copy:
  assumes "slot w s = Some (Some v)" and "slot w d \<noteq> None"
  shows "case placement_new d (T_copy_ctor s) w of
           Undefined \<Rightarrow> False
         | Raise e w' \<Rightarrow> True \<in> set (faults w) \<and> heap w' = heap w \<and> vectors w' = vectors w
         | Return r w' \<Rightarrow> w' = (put d (Some v) w)\<lparr>faults := faults w'\<rparr> \<and> set (faults w') \<subseteq> set (faults w)"
  using assms
  by (auto simp: placement_new_def T_copy_ctor_def seq_def may_throw_def construct_at_def put_def
      split: list.splits ptr.splits)

lemma slot_eq_heap: "heap w' = heap w \<Longrightarrow> slot w' = slot w"
  by (auto simp: slot_def fun_eq_iff split: ptr.splits)

lemma shape_eq_heap: "heap w' = heap w \<Longrightarrow> shape w' = shape w"
  by (simp add: shape_def)

lemma destroy_at_live:
  "slot w p = Some (Some v) \<Longrightarrow> destroy_at p w = Return () (put p None w)"
  by (simp add: destroy_at_def)

lemma uninitialized_copy_n_spec:
  assumes "\<forall>k<n. \<exists>v. slot w (Ptr bs (i + k)) = Some (Some v)"
      and "\<forall>k<n. slot w (Ptr bd (j + k)) = Some None"
      and "bs \<noteq> bd"
  shows "case uninitialized_copy_n (Ptr bs i) n (Ptr bd j) w of
           Undefined \<Rightarrow> False
         | Raise e w' \<Rightarrow> True \<in> set (faults w) \<and> slot w' = slot w \<and> shape w' = shape w \<and> vectors w' = vectors w
         | Return r w' \<Rightarrow> slot w' = overlay (slot w) bd j n (\<lambda>k. slot w (Ptr bs (i + k))) \<and> shape w' = shape w
             \<and> vectors w' = vectors w \<and> set (faults w') \<subseteq> set (faults w)"
  using assms
proof (induction n arbitrary: i j w)
  case 0
  then show ?case by simp
next
  case (Suc n)
  from Suc.prems(1) obtain v where v: "slot w (Ptr bs i) = Some (Some v)"
    by (metis add.right_neutral zero_less_Suc)
  from Suc.prems(2) have d: "slot w (Ptr bd j) = Some None"
    by (metis add.right_neutral zero_less_Suc)
  note st = step_copy [OF v, of "Ptr bd j"]
  show ?case
  proof (cases "placement_new (Ptr bd j) (T_copy_ctor (Ptr bs i)) w")
    case Undefined
    with st d show ?thesis by simp
  next
    case (Raise e w1)
    with st d have "True \<in> set (faults w)" "heap w1 = heap w" "vectors w1 = vectors w" by simp_all
    with Raise show ?thesis
      using slot_eq_heap [of w1 w] shape_eq_heap [of w1 w] by (simp add: seq_def)
  next
    case (Return r w1)
    with st d have w1: "w1 = (put (Ptr bd j) (Some v) w)\<lparr>faults := faults w1\<rparr>"
      and f1: "set (faults w1) \<subseteq> set (faults w)" by simp_all
    have s1: "slot w1 = (slot w)(Ptr bd j := Some (Some v))"
      by (subst w1) (auto simp: slot_put d fun_eq_iff)
    have sh1: "shape w1 = shape w" by (subst w1) simp
    have v1: "vectors w1 = vectors w" by (subst w1) simp
    have p1: "\<forall>k<n. \<exists>v. slot w1 (Ptr bs (Suc i + k)) = Some (Some v)"
    proof (intro allI impI)
      fix k assume "k < n"
      then have "Suc k < Suc n" by simp
      with Suc.prems(1) obtain v' where "slot w (Ptr bs (i + Suc k)) = Some (Some v')" by blast
      then show "\<exists>v. slot w1 (Ptr bs (Suc i + k)) = Some (Some v)"
        using Suc.prems(3) by (simp add: s1)
    qed
    have p2: "\<forall>k<n. slot w1 (Ptr bd (Suc j + k)) = Some None"
    proof (intro allI impI)
      fix k assume "k < n"
      then have "Suc k < Suc n" by simp
      with Suc.prems(2) have "slot w (Ptr bd (j + Suc k)) = Some None" by blast
      then show "slot w1 (Ptr bd (Suc j + k)) = Some None"
        using Suc.prems(3) by (simp add: s1)
    qed
    note ih = Suc.IH [OF p1 p2 Suc.prems(3)]
    have ov: "overlay (slot w1) bd (Suc j) n (\<lambda>k. slot w1 (Ptr bs (Suc i + k)))
        = overlay (slot w) bd j (Suc n) (\<lambda>k. slot w (Ptr bs (i + k)))"
      using Suc.prems(3) v by (simp add: overlay_Suc s1)
    show ?thesis
    proof (cases "uninitialized_copy_n (Ptr bs (Suc i)) n (Ptr bd (Suc j)) w1")
      case Undefined
      with ih show ?thesis by simp
    next
      case (Raise e w2)
      with ih have w2: "slot w2 = slot w1" "shape w2 = shape w1" "vectors w2 = vectors w1" "True \<in> set (faults w1)"
        by simp_all
      have "slot w2 (Ptr bd j) = Some (Some v)" by (simp add: w2 s1)
      then have "destroy_at (Ptr bd j) w2 = Return () (put (Ptr bd j) None w2)"
        by (rule destroy_at_live)
      moreover have "slot (put (Ptr bd j) None w2) = slot w"
        using d by (auto simp: slot_put w2 s1 fun_eq_iff)
      ultimately show ?thesis
        using Return Raise w2 f1 sh1 v1 by (auto simp: seq_def catch_all_def)
    next
      case (Return r2 w2)
      with ih ov Return \<open>placement_new (Ptr bd j) (T_copy_ctor (Ptr bs i)) w = Return r w1\<close> f1 sh1 v1
      show ?thesis by (auto simp: seq_def catch_all_def)
    qed
  qed
qed

lemma put_faults [simp]: "put p s (w\<lparr>faults := f\<rparr>) = (put p s w)\<lparr>faults := f\<rparr>"
  by (simp add: put_def split: ptr.splits)

lemma step_move:
  assumes "slot w s = Some (Some v)" and "slot w d \<noteq> None"
  shows "case placement_new d (T_move_ctor T s) w of
           Return r w' \<Rightarrow> w' = (put d (Some v) (put s (Some (moved_from T v)) w))\<lparr>faults := faults w'\<rparr>
              \<and> set (faults w') \<subseteq> set (faults w)
         | _ \<Rightarrow> \<not> is_nothrow_move_constructible T \<and> True \<in> set (faults w)"
  using assms
  by (auto simp: placement_new_def T_move_ctor_def seq_def may_throw_def construct_at_def slot_put
      split: list.splits)

lemma uninitialized_move_n_spec:
  assumes "\<forall>k<n. \<exists>v. slot w (Ptr bs (i + k)) = Some (Some v)"
      and "\<forall>k<n. slot w (Ptr bd (j + k)) = Some None"
      and "bs \<noteq> bd"
  shows "case uninitialized_move_n T (Ptr bs i) n (Ptr bd j) w of
           Return r w' \<Rightarrow>
             slot w' = overlay (overlay (slot w) bs i n (\<lambda>k. map_option (map_option (moved_from T)) (slot w (Ptr bs (i + k)))))
                          bd j n (\<lambda>k. slot w (Ptr bs (i + k)))
             \<and> shape w' = shape w \<and> vectors w' = vectors w \<and> set (faults w') \<subseteq> set (faults w)
         | _ \<Rightarrow> \<not> is_nothrow_move_constructible T \<and> True \<in> set (faults w)"
  using assms
proof (induction n arbitrary: i j w)
  case 0
  then show ?case by simp
next
  case (Suc n)
  from Suc.prems(1) obtain v where v: "slot w (Ptr bs i) = Some (Some v)"
    by (metis add.right_neutral zero_less_Suc)
  from Suc.prems(2) have d: "slot w (Ptr bd j) = Some None"
    by (metis add.right_neutral zero_less_Suc)
  have d': "slot w (Ptr bd j) \<noteq> None" using d by simp
  note st = step_move [OF v d', of T]
  show ?case
  proof (cases "placement_new (Ptr bd j) (T_move_ctor T (Ptr bs i)) w")
    case Undefined
    with st show ?thesis by (simp add: seq_def)
  next
    case (Raise e w1)
    with st show ?thesis by (simp add: seq_def)
  next
    case (Return r w1)
    with st have w1: "w1 = (put (Ptr bd j) (Some v) (put (Ptr bs i) (Some (moved_from T v)) w))\<lparr>faults := faults w1\<rparr>"
      and f1: "set (faults w1) \<subseteq> set (faults w)" by simp_all
    have s1: "slot w1 = (slot w)(Ptr bs i := Some (Some (moved_from T v)), Ptr bd j := Some (Some v))"
      by (subst w1) (auto simp: slot_put d v fun_eq_iff)
    have sh1: "shape w1 = shape w" by (subst w1) simp
    have v1: "vectors w1 = vectors w" by (subst w1) simp
    have p1: "\<forall>k<n. \<exists>v. slot w1 (Ptr bs (Suc i + k)) = Some (Some v)"
    proof (intro allI impI)
      fix k assume "k < n"
      then have "Suc k < Suc n" by simp
      with Suc.prems(1) obtain v' where "slot w (Ptr bs (i + Suc k)) = Some (Some v')" by blast
      then show "\<exists>v. slot w1 (Ptr bs (Suc i + k)) = Some (Some v)"
        using Suc.prems(3) by (simp add: s1)
    qed
    have p2: "\<forall>k<n. slot w1 (Ptr bd (Suc j + k)) = Some None"
    proof (intro allI impI)
      fix k assume "k < n"
      then have "Suc k < Suc n" by simp
      with Suc.prems(2) have "slot w (Ptr bd (j + Suc k)) = Some None" by blast
      then show "slot w1 (Ptr bd (Suc j + k)) = Some None"
        using Suc.prems(3) by (simp add: s1)
    qed
    note ih = Suc.IH [OF p1 p2 Suc.prems(3)]
    have ov: "overlay (overlay (slot w1) bs (Suc i) n (\<lambda>k. map_option (map_option (moved_from T)) (slot w1 (Ptr bs (Suc i + k)))))
                  bd (Suc j) n (\<lambda>k. slot w1 (Ptr bs (Suc i + k)))
        = overlay (overlay (slot w) bs i (Suc n) (\<lambda>k. map_option (map_option (moved_from T)) (slot w (Ptr bs (i + k)))))
                  bd j (Suc n) (\<lambda>k. slot w (Ptr bs (i + k)))"
      using Suc.prems(3) v by (simp add: overlay_Suc overlay_upd s1)
    show ?thesis
    proof (cases "uninitialized_move_n T (Ptr bs (Suc i)) n (Ptr bd (Suc j)) w1")
      case Undefined
      with ih Return f1 show ?thesis by (auto simp: seq_def catch_all_def)
    next
      case (Raise e w2)
      with ih Return f1 show ?thesis by (auto simp: seq_def catch_all_def split: result.splits)
    next
      case (Return r2 w2)
      with ih ov \<open>placement_new (Ptr bd j) (T_move_ctor T (Ptr bs i)) w = Return r w1\<close> f1 sh1 v1
      show ?thesis by (auto simp: seq_def catch_all_def)
    qed
  qed
qed

lemma destroy_n_spec:
  assumes "\<forall>k<n. \<exists>v. slot w (Ptr b (i + k)) = Some (Some v)"
  shows "\<exists>w'. destroy_n (Ptr b i) n w = Return () w' \<and> slot w' = overlay (slot w) b i n (\<lambda>_. Some None)
           \<and> shape w' = shape w \<and> vectors w' = vectors w \<and> faults w' = faults w"
  using assms
proof (induction n arbitrary: i w)
  case 0
  then show ?case by simp
next
  case (Suc n)
  from Suc.prems obtain v where v: "slot w (Ptr b i) = Some (Some v)"
    by (metis add.right_neutral zero_less_Suc)
  let ?w1 = "put (Ptr b i) None w"
  have s1: "slot ?w1 = (slot w)(Ptr b i := Some None)"
    by (auto simp: slot_put v fun_eq_iff)
  have p1: "\<forall>k<n. \<exists>v. slot ?w1 (Ptr b (Suc i + k)) = Some (Some v)"
  proof (intro allI impI)
    fix k assume "k < n"
    then have "Suc k < Suc n" by simp
    with Suc.prems obtain v' where "slot w (Ptr b (i + Suc k)) = Some (Some v')" by blast
    then show "\<exists>v. slot ?w1 (Ptr b (Suc i + k)) = Some (Some v)" by (simp add: s1)
  qed
  from Suc.IH [OF p1] obtain w' where w': "destroy_n (Ptr b (Suc i)) n ?w1 = Return () w'"
    "slot w' = overlay (slot ?w1) b (Suc i) n (\<lambda>_. Some None)" "shape w' = shape ?w1"
    "vectors w' = vectors ?w1" "faults w' = faults ?w1" by blast
  have "destroy_n (Ptr b i) (Suc n) w = Return () w'"
    using w'(1) by (simp add: seq_def destroy_at_live [OF v])
  moreover have "slot w' = overlay (slot w) b i (Suc n) (\<lambda>_. Some None)"
    by (simp add: w'(2) overlay_Suc s1)
  ultimately show ?case using w'(3,4,5) by simp
qed

lemma step_value_init:
  assumes "slot w d \<noteq> None"
  shows "case placement_new d (T_value_init T) w of
           Undefined \<Rightarrow> False
         | Raise e w' \<Rightarrow> True \<in> set (faults w) \<and> heap w' = heap w \<and> vectors w' = vectors w
         | Return r w' \<Rightarrow> w' = (put d (Some (value_initialized T)) w)\<lparr>faults := faults w'\<rparr>
             \<and> set (faults w') \<subseteq> set (faults w)"
  using assms
  by (auto simp: placement_new_def T_value_init_def seq_def may_throw_def construct_at_def
      split: list.splits)

lemma uninitialized_value_construct_n_spec:
  assumes "\<forall>k<n. slot w (Ptr b (i + k)) = Some None"
  shows "case uninitialized_value_construct_n T (Ptr b i) n w of
           Return r w' \<Rightarrow> slot w' = overlay (slot w) b i n (\<lambda>_. Some (Some (value_initialized T)))
             \<and> shape w' = shape w \<and> vectors w' = vectors w \<and> set (faults w') \<subseteq> set (faults w)
         | _ \<Rightarrow> True \<in> set (faults w)"
  using assms
proof (induction n arbitrary: i w)
  case 0
  then show ?case by simp
next
  case (Suc n)
  from Suc.prems have d: "slot w (Ptr b i) = Some None"
    by (metis add.right_neutral zero_less_Suc)
  then have d': "slot w (Ptr b i) \<noteq> None" by simp
  note st = step_value_init [OF d', of T]
  show ?case
  proof (cases "placement_new (Ptr b i) (T_value_init T) w")
    case Undefined
    with st show ?thesis by simp
  next
    case (Raise e w1)
    with st show ?thesis by (simp add: seq_def)
  next
    case (Return r w1)
    with st have w1: "w1 = (put (Ptr b i) (Some (value_initialized T)) w)\<lparr>faults := faults w1\<rparr>"
      and f1: "set (faults w1) \<subseteq> set (faults w)" by simp_all
    have s1: "slot w1 = (slot w)(Ptr b i := Some (Some (value_initialized T)))"
      by (subst w1) (auto simp: slot_put d fun_eq_iff)
    have sh1: "shape w1 = shape w" by (subst w1) simp
    have v1: "vectors w1 = vectors w" by (subst w1) simp
    have p1: "\<forall>k<n. slot w1 (Ptr b (Suc i + k)) = Some None"
    proof (intro allI impI)
      fix k assume "k < n"
      then have "Suc k < Suc n" by simp
      with Suc.prems have "slot w (Ptr b (i + Suc k)) = Some None" by blast
      then show "slot w1 (Ptr b (Suc i + k)) = Some None" by (simp add: s1)
    qed
    note ih = Suc.IH [OF p1]
    show ?thesis
    proof (cases "uninitialized_value_construct_n T (Ptr b (Suc i)) n w1")
      case Undefined
      with ih Return f1 show ?thesis by (auto simp: seq_def catch_all_def)
    next
      case (Raise e w2)
      with ih Return f1 show ?thesis by (auto simp: seq_def catch_all_def split: result.splits)
    next
      case (Return r2 w2)
      with ih have "slot w2 = overlay (slot w) b i (Suc n) (\<lambda>_. Some (Some (value_initialized T)))"
        by (simp add: overlay_Suc s1)
      with ih Return \<open>placement_new (Ptr b i) (T_value_init T) w = Return r w1\<close> f1 sh1 v1
      show ?thesis by (auto simp: seq_def catch_all_def)
    qed
  qed
qed

lemma allocatable_slots: "allocatable T n \<Longrightarrow> size_t_times n (sizeof' T) div sizeof' T = n"
  by (simp add: allocatable_def size_t_times_def)

lemma RawMemory_ctor_spec:
  assumes "allocatable T n"
  shows "case RawMemory_ctor T n w of
     Undefined \<Rightarrow> False
   | Raise e w' \<Rightarrow> True \<in> set (faults w) \<and> heap w' = heap w \<and> vectors w' = vectors w
   | Return m w' \<Rightarrow>
       m = \<lparr>buffer' = (if n = 0 then Null else Ptr (length (heap w)) 0), capacity' = n\<rparr>
       \<and> heap w' = (if n = 0 then heap w else heap w @ [Some (replicate n None)])
       \<and> vectors w' = vectors w \<and> set (faults w') \<subseteq> set (faults w)"
  by (auto simp: RawMemory_ctor_def Allocate_def operator_new_def seq_def may_throw_def
      allocatable_slots [OF assms] split: list.splits)

lemma slot_append_block:
  assumes "heap w' = heap w @ [Some (replicate n None)]"
  shows "slot w' (Ptr c k) = (if c = length (heap w) then (if k < n then Some None else None) else slot w (Ptr c k))"
  using assms by (auto simp: slot_def nth_append)

lemma shape_append_block:
  assumes "heap w' = heap w @ [Some (replicate n None)]"
  shows "shape w' = shape w @ [Some n]"
  using assms by (simp add: shape_def)

lemma RawMemory_dtor_Null: "buffer' m = Null \<Longrightarrow> RawMemory_dtor m w = Return () w"
  by (simp add: RawMemory_dtor_def Deallocate_def operator_delete_def)

lemma RawMemory_dtor_Ptr:
  assumes "buffer' m = Ptr b 0" and "b < length (heap w)" and "heap w ! b \<noteq> None"
  shows "RawMemory_dtor m w = Return () (w\<lparr>heap := (heap w)[b := None]\<rparr>)"
  using assms by (simp add: RawMemory_dtor_def Deallocate_def operator_delete_def)

lemma slot_free:
  "slot (w\<lparr>heap := (heap w)[b := None]\<rparr>) (Ptr c k) = (if c = b then None else slot w (Ptr c k))"
  by (auto simp: slot_def nth_upd)

lemma shape_free: "shape (w\<lparr>heap := (heap w)[b := None]\<rparr>) = (shape w)[b := None]"
  by (simp add: shape_def map_update)

lemma shape_Some: "b < length (heap w) \<Longrightarrow> (shape w ! b = Some n) = (\<exists>blk. heap w ! b = Some blk \<and> length blk = n)"
  by (auto simp: shape_def)

lemma slot_in_block:
  assumes "b < length (heap w)" and "heap w ! b = Some blk"
  shows "slot w (Ptr b k) = (if k < length blk then Some (blk ! k) else None)"
  using assms by (simp add: slot_def)

lemma vec_inv_view:
  assumes "buffer' (data' (vectors w this)) = Ptr b i"
  shows "vec_inv w this \<longleftrightarrow>
     i = 0 \<and> b < length (heap w) \<and> shape w ! b = Some (capacity' (data' (vectors w this)))
     \<and> size' (vectors w this) \<le> capacity' (data' (vectors w this))
     \<and> (\<forall>k<size' (vectors w this). \<exists>v. slot w (Ptr b k) = Some (Some v))
     \<and> (\<forall>k. size' (vectors w this) \<le> k \<and> k < capacity' (data' (vectors w this)) \<longrightarrow> slot w (Ptr b k) = Some None)"
proof (cases "i = 0 \<and> b < length (heap w)")
  case False
  then show ?thesis using assms by (auto simp: vec_inv_def)
next
  case True
  then have i: "i = 0" and b: "b < length (heap w)" by simp_all
  show ?thesis
  proof (cases "heap w ! b")
    case None
    then show ?thesis using assms i b by (simp add: vec_inv_def shape_Some)
  next
    case (Some blk)
    have live: "list_all (\<lambda>s. s \<noteq> None) (take n blk) \<longleftrightarrow> (\<forall>k<n. \<exists>v. blk ! k = Some v)" if "n \<le> length blk" for n
      using that by (auto simp: list_all_length)
    have raw: "list_all (\<lambda>s. s = None) (drop n blk) \<longleftrightarrow> (\<forall>k. n \<le> k \<and> k < length blk \<longrightarrow> blk ! k = None)" if "n \<le> length blk" for n
    proof
      assume l: "list_all (\<lambda>s. s = None) (drop n blk)"
      show "\<forall>k. n \<le> k \<and> k < length blk \<longrightarrow> blk ! k = None"
      proof (intro allI impI)
        fix k assume k: "n \<le> k \<and> k < length blk"
        then have "k - n < length (drop n blk)" by (simp add: less_diff_conv2)
        with l have "drop n blk ! (k - n) = None" by (simp add: list_all_length)
        then show "blk ! k = None" using k that by simp
      qed
    next
      assume a: "\<forall>k. n \<le> k \<and> k < length blk \<longrightarrow> blk ! k = None"
      show "list_all (\<lambda>s. s = None) (drop n blk)"
        using a that by (auto simp: list_all_length)
    qed
    define n where "n = size' (vectors w this)"
    define cap where "cap = capacity' (data' (vectors w this))"
    have eq: "vec_inv w this \<longleftrightarrow> length blk = cap \<and> n \<le> cap
        \<and> list_all (\<lambda>s. s \<noteq> None) (take n blk) \<and> list_all (\<lambda>s. s = None) (drop n blk)"
      using assms i b Some by (simp add: vec_inv_def Let_def n_def cap_def del: not_None_eq)
    have sl: "slot w (Ptr b k) = (if k < length blk then Some (blk ! k) else None)" for k
      by (rule slot_in_block [OF b Some])
    have sh: "shape w ! b = Some cap \<longleftrightarrow> length blk = cap"
      using b Some by (simp add: shape_Some)
    show ?thesis
    proof (cases "length blk = cap \<and> n \<le> cap")
      case False
      then show ?thesis
        unfolding eq n_def [symmetric] cap_def [symmetric] sh by auto
    next
      case True
      then have nl: "n \<le> length blk" by simp
      show ?thesis
        unfolding eq n_def [symmetric] cap_def [symmetric] sh live [OF nl] raw [OF nl]
        using True i b by (auto simp: sl)
    qed
  qed
qed

lemma vec_inv_Null:
  assumes "buffer' (data' (vectors w this)) = Null"
  shows "vec_inv w this \<longleftrightarrow> capacity' (data' (vectors w this)) = 0 \<and> size' (vectors w this) = 0"
  using assms by (simp add: vec_inv_def Let_def)

lemma vec_inv_not_Wild: "vec_inv w this \<Longrightarrow> buffer' (data' (vectors w this)) \<noteq> Wild"
  by (auto simp: vec_inv_def)

lemma elems_view:
  assumes "buffer' (data' (vectors w this)) = Ptr b 0" and "b < length (heap w)"
      and "shape w ! b = Some cap" and "size' (vectors w this) \<le> cap"
  shows "elems w this = map (\<lambda>k. the (the (slot w (Ptr b k)))) [0..<size' (vectors w this)]"
proof -
  from assms(2,3) obtain blk where blk: "heap w ! b = Some blk" "length blk = cap"
    by (auto simp: shape_Some)
  have "slot w (Ptr b k) = Some (blk ! k)" if "k < length blk" for k
    using slot_in_block [OF assms(2) blk(1), of k] that by simp
  then show ?thesis
    using assms blk
    by (auto simp: elems_def slots_def list_eq_iff_nth_eq)
qed

lemma RawMemory_overwrite: "(r::RawMemory)\<lparr>buffer' := buffer' m, capacity' := capacity' m\<rparr> = m"
  by (rule RawMemory.equality) simp_all

lemma data_Swap_eq:
  "data_Swap this m w = Return (data' (vectors w this)) (set_data this m w)"
  by (simp add: data_Swap_def RawMemory_Swap_def RawMemory_overwrite)

lemma slot_set_data [simp]: "slot (set_data this m w) = slot w"
  by (auto simp: slot_def set_data_def fun_eq_iff split: ptr.splits)

lemma slot_set_size [simp]: "slot (set_size this n w) = slot w"
  by (auto simp: slot_def set_size_def fun_eq_iff split: ptr.splits)

lemma shape_set_data [simp]: "shape (set_data this m w) = shape w"
  by (simp add: shape_def set_data_def)

lemma shape_set_size [simp]: "shape (set_size this n w) = shape w"
  by (simp add: shape_def set_size_def)

lemma heap_set_data [simp]: "heap (set_data this m w) = heap w"
  by (simp add: set_data_def)

lemma heap_set_size [simp]: "heap (set_size this n w) = heap w"
  by (simp add: set_size_def)

lemma faults_set_data [simp]: "faults (set_data this m w) = faults w"
  by (simp add: set_data_def)

lemma faults_set_size [simp]: "faults (set_size this n w) = faults w"
  by (simp add: set_size_def)

lemma map_live: "\<exists>v. s = Some (Some v) \<Longrightarrow> \<exists>v. map_option (map_option f) s = Some (Some v)"
  by auto

text \<open>Relocation of the \<open>n\<close> elements of block \<open>bs\<close> into the raw slots of another block.\<close>

lemma relocate_spec:
  assumes "\<forall>k<n. \<exists>v. slot w (Ptr bs (i + k)) = Some (Some v)"
      and "\<forall>k<n. slot w (Ptr bd (j + k)) = Some None"
      and "bs \<noteq> bd"
  shows "case (if is_nothrow_move_constructible T \<or> \<not> is_copy_constructible T
               then uninitialized_move_n T (Ptr bs i) n (Ptr bd j)
               else uninitialized_copy_n (Ptr bs i) n (Ptr bd j)) w of
           Return r w' \<Rightarrow>
             (\<forall>k<n. slot w' (Ptr bd (j + k)) = slot w (Ptr bs (i + k)))
             \<and> (\<forall>k<n. \<exists>v. slot w' (Ptr bs (i + k)) = Some (Some v))
             \<and> (\<forall>c k. \<not> (c = bs \<and> i \<le> k \<and> k < i + n) \<and> \<not> (c = bd \<and> j \<le> k \<and> k < j + n)
                    \<longrightarrow> slot w' (Ptr c k) = slot w (Ptr c k))
             \<and> shape w' = shape w \<and> vectors w' = vectors w \<and> set (faults w') \<subseteq> set (faults w)
         | _ \<Rightarrow> True \<in> set (faults w)"
proof (cases "is_nothrow_move_constructible T \<or> \<not> is_copy_constructible T")
  case True
  note sp = uninitialized_move_n_spec [OF assms, of T]
  show ?thesis
  proof (cases "uninitialized_move_n T (Ptr bs i) n (Ptr bd j) w")
    case (Return r w')
    with sp have sl: "slot w' = overlay (overlay (slot w) bs i n (\<lambda>k. map_option (map_option (moved_from T)) (slot w (Ptr bs (i + k)))))
                          bd j n (\<lambda>k. slot w (Ptr bs (i + k)))"
      and rest: "shape w' = shape w" "vectors w' = vectors w" "set (faults w') \<subseteq> set (faults w)"
      by simp_all
    have a: "\<forall>k<n. slot w' (Ptr bd (j + k)) = slot w (Ptr bs (i + k))"
      by (simp add: sl overlay_at)
    have b: "\<forall>k<n. \<exists>v. slot w' (Ptr bs (i + k)) = Some (Some v)"
      using assms(1,3) by (auto simp: sl overlay_at)
    have c: "\<forall>c k. \<not> (c = bs \<and> i \<le> k \<and> k < i + n) \<and> \<not> (c = bd \<and> j \<le> k \<and> k < j + n)
                    \<longrightarrow> slot w' (Ptr c k) = slot w (Ptr c k)"
      by (auto simp: sl overlay_at)
    show ?thesis using True Return a b c rest by simp
  qed (use sp True in simp_all)
next
  case False
  note sp = uninitialized_copy_n_spec [OF assms]
  show ?thesis
  proof (cases "uninitialized_copy_n (Ptr bs i) n (Ptr bd j) w")
    case (Return r w')
    with sp have sl: "slot w' = overlay (slot w) bd j n (\<lambda>k. slot w (Ptr bs (i + k)))"
      and rest: "shape w' = shape w" "vectors w' = vectors w" "set (faults w') \<subseteq> set (faults w)"
      by simp_all
    have a: "\<forall>k<n. slot w' (Ptr bd (j + k)) = slot w (Ptr bs (i + k))"
      by (simp add: sl overlay_at)
    have b: "\<forall>k<n. \<exists>v. slot w' (Ptr bs (i + k)) = Some (Some v)"
      using assms(1,3) by (auto simp: sl overlay_at)
    have c: "\<forall>c k. \<not> (c = bs \<and> i \<le> k \<and> k < i + n) \<and> \<not> (c = bd \<and> j \<le> k \<and> k < j + n)
                    \<longrightarrow> slot w' (Ptr c k) = slot w (Ptr c k)"
      by (auto simp: sl overlay_at)
    show ?thesis using False Return a b c rest by simp
  qed (use sp False in simp_all)
qed

text \<open>When the element type can be copied or moved without failure, a failed relocation changes nothing.\<close>

lemma relocate_safe:
  assumes "\<forall>k<n. \<exists>v. slot w (Ptr bs (i + k)) = Some (Some v)"
      and "\<forall>k<n. slot w (Ptr bd (j + k)) = Some None"
      and "bs \<noteq> bd"
      and "is_nothrow_move_constructible T \<or> is_copy_constructible T"
  shows "case (if is_nothrow_move_constructible T \<or> \<not> is_copy_constructible T
               then uninitialized_move_n T (Ptr bs i) n (Ptr bd j)
               else uninitialized_copy_n (Ptr bs i) n (Ptr bd j)) w of
           Undefined \<Rightarrow> False
         | Raise e w' \<Rightarrow> heap w' = heap w \<and> vectors w' = vectors w
         | Return r w' \<Rightarrow> True"
proof (cases "is_nothrow_move_constructible T")
  case True
  with uninitialized_move_n_spec [OF assms(1-3), of T] show ?thesis
    by (auto split: result.splits)
next
  case False
  with assms(4) have c: "is_copy_constructible T" by simp
  show ?thesis
    using uninitialized_copy_n_spec [OF assms(1-3)] False c
    by (auto split: result.splits intro: heap_ext)
qed

lemma vectors_set_data [simp]:
  "vectors (set_data this m w) = (vectors w)(this := (vectors w this)\<lparr>data' := m\<rparr>)"
  by (simp add: set_data_def)

lemma vectors_set_size [simp]:
  "vectors (set_size this n w) = (vectors w)(this := (vectors w this)\<lparr>size' := n\<rparr>)"
  by (simp add: set_size_def)

lemma slot_freed:
  assumes "heap w' = (heap w)[b := None]"
  shows "slot w' (Ptr c k) = (if c = b then None else slot w (Ptr c k))"
  using assms by (auto simp: slot_def nth_upd)

lemma shape_freed:
  assumes "heap w' = (heap w)[b := None]"
  shows "shape w' = (shape w)[b := None]"
  using assms by (simp add: shape_def map_update)

lemma Reserve_realloc:
  assumes inv: "vec_inv w this"
      and gt: "capacity' (data' (vectors w this)) < nc"
      and al: "allocatable T nc"
  shows "case Reserve T this nc w of
           Return r w' \<Rightarrow>
             vec_inv w' this \<and> size' (vectors w' this) = size' (vectors w this)
             \<and> elems w' this = elems w this
             \<and> data' (vectors w' this) = \<lparr>buffer' = Ptr (length (heap w)) 0, capacity' = nc\<rparr>
             \<and> length (heap w') = Suc (length (heap w))
             \<and> set (faults w') \<subseteq> set (faults w)
         | _ \<Rightarrow> True \<in> set (faults w)"
proof -
  define v where "v = vectors w this"
  define n where "n = size' v"
  define cap where "cap = capacity' (data' v)"
  define nb where "nb = length (heap w)"
  define src where "src = buffer' (data' v)"
  have nc0: "nc \<noteq> 0" using gt by simp
  have R: "Reserve T this nc w =
      seq (RawMemory_ctor T nc) (\<lambda>new_data.
        seq (catch_all
               (seq (if is_nothrow_move_constructible T \<or> \<not> is_copy_constructible T
                     then uninitialized_move_n T src n (GetAddress new_data)
                     else uninitialized_copy_n src n (GetAddress new_data)) (\<lambda>_.
                seq (destroy_n src n) (\<lambda>_.
                data_Swap this new_data)))
               (\<lambda>e. seq (RawMemory_dtor new_data) (\<lambda>_. Raise e)))
          RawMemory_dtor) w"
    unfolding Reserve_def Let_def n_def src_def v_def GetAddress_def RawMemory_Capacity_def
    using gt by simp
  note ctor = RawMemory_ctor_spec [OF al, where w=w]
  show ?thesis
  proof (cases "RawMemory_ctor T nc w")
    case Undefined
    with ctor show ?thesis by simp
  next
    case (Raise e w1)
    with ctor show ?thesis by (simp add: R seq_def)
  next
    case (Return new_data w1)
    with ctor nc0 have nd: "new_data = \<lparr>buffer' = Ptr nb 0, capacity' = nc\<rparr>"
      and h1: "heap w1 = heap w @ [Some (replicate nc None)]"
      and v1: "vectors w1 = vectors w" and f1: "set (faults w1) \<subseteq> set (faults w)"
      by (simp_all add: nb_def)
    have s1: "slot w1 (Ptr c k) = (if c = nb then (if k < nc then Some None else None) else slot w (Ptr c k))" for c k
      using slot_append_block [OF h1] by (simp add: nb_def)
    have sh1: "shape w1 = shape w @ [Some nc]"
      by (rule shape_append_block [OF h1])
    have len1: "length (heap w1) = Suc nb" using h1 by (simp add: nb_def)
    have shnb: "(shape w @ [Some nc]) ! nb = Some nc" by (simp add: nb_def nth_append)
    show ?thesis
    proof (cases src)
      case Wild
      with inv show ?thesis using vec_inv_not_Wild [of w this] by (simp add: src_def v_def)
    next
      case Null
      with inv have z: "n = 0" "cap = 0"
        by (simp_all add: vec_inv_Null src_def v_def n_def cap_def)
      let ?w4 = "set_data this new_data w1"
      have res: "Reserve T this nc w = Return () ?w4"
        using Return Null z
        by (simp add: R seq_def catch_all_def data_Swap_eq v1 RawMemory_dtor_Null src_def v_def)
      have vec4: "vectors ?w4 this = v\<lparr>data' := new_data\<rparr>"
        by (simp add: v1 v_def)
      have b4: "buffer' (data' (vectors ?w4 this)) = Ptr nb 0"
        by (simp add: nd)
      have sz: "size' v = 0" using z by (simp add: n_def)
      have "vec_inv ?w4 this"
        unfolding vec_inv_view [OF b4] vec4
        by (simp add: nd len1 sh1 s1 sz shnb)
      moreover have "elems ?w4 this = elems w this"
        using sz by (simp add: elems_def v1 v_def)
      ultimately show ?thesis
        using f1 sz by (simp add: res nd len1 nb_def v1 v_def)
    next
      case (Ptr b i)
      then have buf: "buffer' (data' (vectors w this)) = Ptr b i" by (simp add: src_def v_def)
      from inv have i0: "i = 0" and b: "b < nb" and shb: "shape w ! b = Some cap" and ncap: "n \<le> cap"
        and live: "\<forall>k<n. \<exists>v. slot w (Ptr b k) = Some (Some v)"
        unfolding vec_inv_view [OF buf] by (simp_all add: nb_def cap_def n_def v_def)
      have bnb: "b \<noteq> nb" using b by simp
      have src: "src = Ptr b 0" using Ptr i0 by simp
      have nnc: "n < nc" using ncap gt by (simp add: cap_def v_def)
      have p1: "\<forall>k<n. \<exists>v. slot w1 (Ptr b (0 + k)) = Some (Some v)"
        using live bnb by (simp add: s1)
      have p2: "\<forall>k<n. slot w1 (Ptr nb (0 + k)) = Some None"
        using nnc by (simp add: s1)
      note rel = relocate_spec [OF p1 p2 bnb, of T]
      let ?reloc = "if is_nothrow_move_constructible T \<or> \<not> is_copy_constructible T
                     then uninitialized_move_n T (Ptr b 0) n (Ptr nb 0)
                     else uninitialized_copy_n (Ptr b 0) n (Ptr nb 0)"
      have R1: "Reserve T this nc w =
          seq (catch_all (seq ?reloc (\<lambda>_. seq (destroy_n (Ptr b 0) n) (\<lambda>_. data_Swap this new_data)))
                 (\<lambda>e. seq (RawMemory_dtor new_data) (\<lambda>_. Raise e)))
            RawMemory_dtor w1"
        using Return by (simp add: R seq_def src nd GetAddress_def)
      show ?thesis
      proof (cases "?reloc w1")
        case Undefined
        with rel f1 show ?thesis by (auto simp: R1 seq_def catch_all_def)
      next
        case (Raise e w2)
        with rel f1 show ?thesis by (auto simp: R1 seq_def catch_all_def split: result.splits)
      next
        case (Return r2 w2)
        with rel have a: "\<forall>k<n. slot w2 (Ptr nb k) = slot w1 (Ptr b k)"
          and bl: "\<forall>k<n. \<exists>v. slot w2 (Ptr b (0 + k)) = Some (Some v)"
          and c: "\<forall>c k. \<not> (c = b \<and> k < n) \<and> \<not> (c = nb \<and> k < n) \<longrightarrow> slot w2 (Ptr c k) = slot w1 (Ptr c k)"
          and sh2: "shape w2 = shape w1" and v2: "vectors w2 = vectors w1"
          and f2: "set (faults w2) \<subseteq> set (faults w1)"
          by simp_all
        from destroy_n_spec [OF bl] obtain w3 where
          d3: "destroy_n (Ptr b 0) n w2 = Return () w3"
          and s3: "slot w3 = overlay (slot w2) b 0 n (\<lambda>_. Some None)"
          and sh3: "shape w3 = shape w2" and v3: "vectors w3 = vectors w2" and f3: "faults w3 = faults w2"
          by blast
        define w4 where "w4 = set_data this new_data w3"
        have h4: "heap w4 = heap w3" and sl4: "slot w4 = slot w3" and f4: "faults w4 = faults w3"
          and v4: "vectors w4 = (vectors w)(this := v\<lparr>data' := new_data\<rparr>)"
          by (simp_all add: w4_def v3 v2 v1 v_def)
        have old: "data' (vectors w3 this) = data' v" by (simp add: v3 v2 v1 v_def)
        have oldb: "buffer' (data' (vectors w3 this)) = Ptr b 0"
          using src by (simp add: old src_def)
        have sh3': "shape w3 = shape w @ [Some nc]" by (simp add: sh3 sh2 sh1)
        have len3: "length (heap w3) = Suc nb"
          using sh3' by (metis length_shape length_append_singleton nb_def)
        have "shape w3 ! b = Some cap" using b shb by (simp add: sh3' nth_append nb_def)
        then have alive: "heap w4 ! b \<noteq> None"
          using b len3 by (auto simp: shape_Some h4)
        have b4: "b < length (heap w4)" using b len3 by (simp add: h4)
        define w5 where "w5 = w4\<lparr>heap := (heap w4)[b := None]\<rparr>"
        have h5: "heap w5 = (heap w3)[b := None]" and v5: "vectors w5 = vectors w4"
          and f5: "faults w5 = faults w4"
          by (simp_all add: w5_def h4)
        have dt: "RawMemory_dtor (data' (vectors w3 this)) w4 = Return () w5"
          unfolding w5_def by (rule RawMemory_dtor_Ptr [OF oldb b4 alive])
        have res: "Reserve T this nc w = Return () w5"
          using Return d3 dt by (simp add: R1 seq_def catch_all_def data_Swap_eq w4_def)
        have vec5: "vectors w5 this = v\<lparr>data' := new_data\<rparr>"
          by (simp add: v5 v4)
        have s5: "slot w5 (Ptr nb k) = (if k < n then slot w (Ptr b k) else if k < nc then Some None else None)" for k
          using bnb a c by (simp add: slot_freed [OF h5] s3 overlay_at s1)
        have sh5: "shape w5 ! nb = Some nc"
          using bnb by (simp add: shape_freed [OF h5] sh3' shnb)
        have len5: "length (heap w5) = Suc nb" using len3 by (simp add: h5)
        have b5: "buffer' (data' (vectors w5 this)) = Ptr nb 0"
          unfolding vec5 by (simp add: nd)
        have inv5: "vec_inv w5 this"
          unfolding vec_inv_view [OF b5] vec5
          using nnc live sh5 len5 by (simp add: nd s5 n_def [symmetric])
        have e5: "elems w5 this = map (\<lambda>k. the (the (slot w5 (Ptr nb k)))) [0..<n]"
          using elems_view [OF b5 _ sh5] nnc len5 by (simp add: vec5 n_def)
        have e0: "elems w this = map (\<lambda>k. the (the (slot w (Ptr b k)))) [0..<n]"
          using elems_view [OF buf [unfolded i0] _ shb] b ncap by (simp add: nb_def n_def v_def)
        have "elems w5 this = elems w this"
          unfolding e5 e0 by (simp add: s5)
        with inv5 show ?thesis
          using f1 f2 f3 f4 f5 len5 vec5 by (auto simp: res n_def nd nb_def v_def)
      qed
    qed
  qed
qed

lemma Reserve_noop:
  "nc \<le> capacity' (data' (vectors w this)) \<Longrightarrow> Reserve T this nc w = Return () w"
  by (simp add: Reserve_def RawMemory_Capacity_def)

lemma Reserve_post:
  assumes "vec_inv w this" and al: "allocatable T nc"
  shows "case Reserve T this nc w of
           Return r w' \<Rightarrow>
             vec_inv w' this \<and> size' (vectors w' this) = size' (vectors w this)
             \<and> elems w' this = elems w this
             \<and> capacity' (data' (vectors w' this)) = max (capacity' (data' (vectors w this))) nc
             \<and> set (faults w') \<subseteq> set (faults w)
         | _ \<Rightarrow> True \<in> set (faults w)"
proof (cases "nc \<le> capacity' (data' (vectors w this))")
  case True
  then show ?thesis using assms by (simp add: Reserve_noop max_def)
next
  case False
  then have gt: "capacity' (data' (vectors w this)) < nc" by simp
  show ?thesis
    using Reserve_realloc [OF assms(1) gt al] gt
    by (auto split: result.splits simp: max_def)
qed

lemma slots_view:
  assumes "buffer' (data' (vectors w this)) = Ptr b 0" and "b < length (heap w)"
      and "shape w ! b = Some cap"
  shows "slots w this = map (\<lambda>k. the (slot w (Ptr b k))) [0..<cap]"
proof -
  from assms(2,3) obtain blk where blk: "heap w ! b = Some blk" "length blk = cap"
    by (auto simp: shape_Some)
  have "slot w (Ptr b k) = Some (blk ! k)" if "k < length blk" for k
    using slot_in_block [OF assms(2) blk(1), of k] that by simp
  then show ?thesis
    using assms blk by (auto simp: slots_def list_eq_iff_nth_eq)
qed

lemma Resize_shrink:
  assumes inv: "vec_inv w this" and lt: "m < size' (vectors w this)"
  shows "\<exists>w'. Resize T this m w = Return () w'
           \<and> vectors w' = (vectors w)(this := (vectors w this)\<lparr>size' := m\<rparr>)
           \<and> shape w' = shape w \<and> faults w' = faults w \<and> vec_inv w' this
           \<and> elems w' this = take m (elems w this)
           \<and> slots w' this = take m (slots w this) @ replicate (capacity' (data' (vectors w this)) - m) None"
proof -
  define v where "v = vectors w this"
  define n where "n = size' v"
  define cap where "cap = capacity' (data' v)"
  have mn: "m < n" using lt by (simp add: n_def v_def)
  obtain b where buf: "buffer' (data' (vectors w this)) = Ptr b 0"
  proof (cases "buffer' (data' (vectors w this))")
    case Null
    with inv lt show ?thesis by (simp add: vec_inv_Null)
  next
    case (Ptr b i)
    with inv have "i = 0" by (simp add: vec_inv_view [OF Ptr])
    with Ptr that show ?thesis by simp
  next
    case Wild
    with inv show ?thesis using vec_inv_not_Wild [of w this] by simp
  qed
  from inv have b: "b < length (heap w)" and shb: "shape w ! b = Some cap" and ncap: "n \<le> cap"
    and live: "\<forall>k<n. \<exists>v. slot w (Ptr b k) = Some (Some v)"
    and raw: "\<forall>k. n \<le> k \<and> k < cap \<longrightarrow> slot w (Ptr b k) = Some None"
    unfolding vec_inv_view [OF buf] by (simp_all add: cap_def n_def v_def)
  have p: "\<forall>k<n - m. \<exists>v. slot w (Ptr b (m + k)) = Some (Some v)"
    using live by simp
  from destroy_n_spec [OF p] obtain w1 where
    d1: "destroy_n (Ptr b m) (n - m) w = Return () w1"
    and s1: "slot w1 = overlay (slot w) b m (n - m) (\<lambda>_. Some None)"
    and sh1: "shape w1 = shape w" and v1: "vectors w1 = vectors w" and f1: "faults w1 = faults w"
    by blast
  define w' where "w' = set_size this m w1"
  have res: "Resize T this m w = Return () w'"
    using mn d1 buf
    by (simp add: Resize_def Let_def seq_def GetAddress_def size_t_minus_def w'_def n_def v_def)
  have vw: "vectors w' = (vectors w)(this := v\<lparr>size' := m\<rparr>)"
    by (simp add: w'_def v1 v_def)
  have sw: "slot w' (Ptr b k) = (if m \<le> k \<and> k < n then Some None else slot w (Ptr b k))" for k
    using mn by (auto simp: w'_def s1 overlay_at)
  have shw: "shape w' = shape w" by (simp add: w'_def sh1)
  have lw: "length (heap w') = length (heap w)" using shw by (metis length_shape)
  have bw: "buffer' (data' (vectors w' this)) = Ptr b 0"
    using buf by (simp add: vw v_def)
  have invw: "vec_inv w' this"
    unfolding vec_inv_view [OF bw]
    using b shb ncap live raw mn by (auto simp: vw shw lw sw cap_def v_def)
  have e0: "elems w this = map (\<lambda>k. the (the (slot w (Ptr b k)))) [0..<n]"
    using elems_view [OF buf b shb] ncap by (simp add: n_def v_def)
  have ew: "elems w' this = map (\<lambda>k. the (the (slot w' (Ptr b k)))) [0..<m]"
    using elems_view [OF bw _ shb [folded shw]] b lw mn ncap by (simp add: vw)
  have el: "elems w' this = take m (elems w this)"
    unfolding e0 ew using mn by (simp add: take_map sw)
  have sl0: "slots w this = map (\<lambda>k. the (slot w (Ptr b k))) [0..<cap]"
    by (rule slots_view [OF buf b shb])
  have slw: "slots w' this = map (\<lambda>k. the (slot w' (Ptr b k))) [0..<cap]"
    using slots_view [OF bw _ shb [folded shw]] b lw by simp
  have "slots w' this = take m (slots w this) @ replicate (cap - m) None"
    unfolding sl0 slw
    using mn ncap raw by (auto simp: list_eq_iff_nth_eq nth_append sw)
  with res vw shw invw el show ?thesis
    by (simp add: w'_def f1 cap_def v_def)
qed

lemma Resize_grow:
  assumes inv: "vec_inv w this" and gt: "size' (vectors w this) < m" and al: "allocatable T m"
  shows "case Resize T this m w of
           Return r w' \<Rightarrow>
             vec_inv w' this \<and> size' (vectors w' this) = m
             \<and> elems w' this = elems w this @ replicate (m - size' (vectors w this)) (value_initialized T)
             \<and> capacity' (data' (vectors w' this)) = max (capacity' (data' (vectors w this))) m
         | _ \<Rightarrow> True \<in> set (faults w)"
proof -
  define n where "n = size' (vectors w this)"
  have nm: "n < m" using gt by (simp add: n_def)
  have R: "Resize T this m w =
      seq (Reserve T this m)
        (\<lambda>_ w'. seq (uninitialized_value_construct_n T
                        (ptr_plus (buffer' (data' (vectors w' this))) (int (size' (vectors w' this))))
                        (size_t_minus m (size' (vectors w' this))))
                   (\<lambda>_ w''. Return () (set_size this m w'')) w') w"
    using gt by (simp add: Resize_def Let_def GetAddress_def)
  note rp = Reserve_post [OF inv al]
  show ?thesis
  proof (cases "Reserve T this m w")
    case Undefined
    with rp show ?thesis by (simp add: R seq_def)
  next
    case (Raise e w1)
    with rp show ?thesis by (simp add: R seq_def)
  next
    case (Return r1 w1)
    with rp have inv1: "vec_inv w1 this" and n1: "size' (vectors w1 this) = n"
      and e1: "elems w1 this = elems w this"
      and c1: "capacity' (data' (vectors w1 this)) = max (capacity' (data' (vectors w this))) m"
      and f1: "set (faults w1) \<subseteq> set (faults w)"
      by (simp_all add: n_def)
    define cap1 where "cap1 = capacity' (data' (vectors w1 this))"
    have mc: "m \<le> cap1" using c1 by (simp add: cap1_def)
    obtain b where buf: "buffer' (data' (vectors w1 this)) = Ptr b 0"
    proof (cases "buffer' (data' (vectors w1 this))")
      case Null
      with inv1 mc nm show ?thesis by (simp add: vec_inv_Null cap1_def)
    next
      case (Ptr b i)
      with inv1 have "i = 0" by (simp add: vec_inv_view [OF Ptr])
      with Ptr that show ?thesis by simp
    next
      case Wild
      with inv1 show ?thesis using vec_inv_not_Wild [of w1 this] by simp
    qed
    from inv1 have b: "b < length (heap w1)" and shb: "shape w1 ! b = Some cap1"
      and live: "\<forall>k<n. \<exists>v. slot w1 (Ptr b k) = Some (Some v)"
      and raw: "\<forall>k. n \<le> k \<and> k < cap1 \<longrightarrow> slot w1 (Ptr b k) = Some None"
      unfolding vec_inv_view [OF buf] by (simp_all add: cap1_def n1)
    have p: "\<forall>k<m - n. slot w1 (Ptr b (n + k)) = Some None"
      using raw mc by simp
    note vc = uninitialized_value_construct_n_spec [OF p, of T]
    have R1: "Resize T this m w =
        seq (uninitialized_value_construct_n T (Ptr b n) (m - n)) (\<lambda>_ w''. Return () (set_size this m w'')) w1"
      using Return nm by (simp add: R seq_def buf n1 size_t_minus_def)
    show ?thesis
    proof (cases "uninitialized_value_construct_n T (Ptr b n) (m - n) w1")
      case Undefined
      with vc f1 show ?thesis by (auto simp: R1 seq_def)
    next
      case (Raise e w2)
      with vc f1 show ?thesis by (auto simp: R1 seq_def)
    next
      case (Return r2 w2)
      with vc have s2: "slot w2 = overlay (slot w1) b n (m - n) (\<lambda>_. Some (Some (value_initialized T)))"
        and sh2: "shape w2 = shape w1" and v2: "vectors w2 = vectors w1"
        by simp_all
      define w' where "w' = set_size this m w2"
      have res: "Resize T this m w = Return () w'"
        using Return by (simp add: R1 seq_def w'_def)
      have vw: "vectors w' this = (vectors w1 this)\<lparr>size' := m\<rparr>"
        by (simp add: w'_def v2)
      have sw: "slot w' (Ptr b k) = (if n \<le> k \<and> k < m then Some (Some (value_initialized T)) else slot w1 (Ptr b k))" for k
        using nm by (auto simp: w'_def s2 overlay_at)
      have shw: "shape w' = shape w1" by (simp add: w'_def sh2)
      have lw: "length (heap w') = length (heap w1)" using shw by (metis length_shape)
      have bw: "buffer' (data' (vectors w' this)) = Ptr b 0"
        using buf by (simp add: vw)
      have invw: "vec_inv w' this"
        unfolding vec_inv_view [OF bw]
        using b shb mc live raw nm by (auto simp: vw shw lw sw cap1_def)
      have e0: "elems w1 this = map (\<lambda>k. the (the (slot w1 (Ptr b k)))) [0..<n]"
        using elems_view [OF buf b shb] mc nm by (simp add: n1)
      have ew: "elems w' this = map (\<lambda>k. the (the (slot w' (Ptr b k)))) [0..<m]"
        using elems_view [OF bw _ shb [folded shw]] b lw mc by (simp add: vw)
      have "elems w' this = elems w1 this @ replicate (m - n) (value_initialized T)"
        unfolding e0 ew using nm by (auto simp: list_eq_iff_nth_eq nth_append sw)
      with invw show ?thesis
        using c1 by (simp add: res vw e1 n_def)
    qed
  qed
qed



lemma Emplace_growth:
  assumes "RawMemory_Capacity (data' (vectors w this)) = size' (vectors w this)"
      and "ptr_diff pos (begin' (vectors w this)) = Some d"
  shows "Emplace T this pos x w =
     seq (growth T (vectors w this) this (to_int d) x)
       (\<lambda>_ w'. let w'' = set_size this (size' (vectors w' this) + 1) w' in
          Return (ptr_plus (begin' (vectors w'' this)) (to_int d)) w'') w"
  using assms by (simp add: Emplace_def growth_def Let_def)




lemma step_ctor:
  assumes "slot w d \<noteq> None"
  shows "case placement_new d (T_ctor x) w of
           Undefined \<Rightarrow> False
         | Raise e w' \<Rightarrow> True \<in> set (faults w) \<and> heap w' = heap w \<and> vectors w' = vectors w
         | Return r w' \<Rightarrow> w' = (put d (Some x) w)\<lparr>faults := faults w'\<rparr>
             \<and> set (faults w') \<subseteq> set (faults w)"
  using assms
  by (auto simp: placement_new_def T_ctor_def seq_def may_throw_def construct_at_def
      split: list.splits)

lemma nth_insert:
  assumes "p \<le> length xs" and "k \<le> length xs"
  shows "(take p xs @ x # drop p xs) ! k = (if k < p then xs ! k else if k = p then x else xs ! (k - 1))"
proof (cases "k < p")
  case True
  then show ?thesis using assms by (simp add: nth_append)
next
  case False
  show ?thesis
  proof (cases "k = p")
    case True
    then show ?thesis using assms by (simp add: nth_append)
  next
    case False
    with \<open>\<not> k < p\<close> obtain j where j: "k = Suc (p + j)"
      by (metis add_Suc_right less_iff_Suc_add linorder_neqE_nat)
    then show ?thesis using assms by (simp add: nth_append)
  qed
qed

lemma if_seq:
  "(if c then seq m1 (\<lambda>_. m2) else seq c1 (\<lambda>_. c2)) = seq (if c then m1 else c1) (\<lambda>_. if c then m2 else c2)"
  by simp

lemma growth_spec:
  assumes inv: "vec_inv w this"
      and full: "capacity' (data' (vectors w this)) = size' (vectors w this)"
      and pn: "p \<le> size' (vectors w this)"
      and al: "allocatable T (if size' (vectors w this) = 0 then 1 else size' (vectors w this) * 2)"
  shows "case growth T (vectors w this) this (int p) x w of
           Return r w' \<Rightarrow>
             vectors w' = (vectors w)(this := (vectors w this)
                \<lparr>data' := \<lparr>buffer' = Ptr (length (heap w)) 0,
                           capacity' = (if size' (vectors w this) = 0 then 1 else size' (vectors w this) * 2)\<rparr>\<rparr>)
             \<and> length (heap w') = Suc (length (heap w))
             \<and> shape w' ! length (heap w) = Some (if size' (vectors w this) = 0 then 1 else size' (vectors w this) * 2)
             \<and> (\<forall>k. slot w' (Ptr (length (heap w)) k) =
                   (if k \<le> size' (vectors w this)
                    then Some (Some ((take p (elems w this) @ x # drop p (elems w this)) ! k))
                    else if k < (if size' (vectors w this) = 0 then 1 else size' (vectors w this) * 2)
                         then Some None else None))
             \<and> set (faults w') \<subseteq> set (faults w)
         | _ \<Rightarrow> True \<in> set (faults w)"
proof -
  define v where "v = vectors w this"
  define n where "n = size' v"
  define nc where "nc = (if n = 0 then 1 else n * 2)"
  define nb where "nb = length (heap w)"
  define src where "src = buffer' (data' v)"
  define xs where "xs = elems w this"
  define ins where "ins = take p xs @ x # drop p xs"
  have nnc: "n < nc" by (simp add: nc_def)
  have nc0: "nc \<noteq> 0" using nnc by simp
  have pn': "p \<le> n" using pn by (simp add: n_def v_def)
  have pnc: "p < nc" using pn' nnc by simp
  let ?c = "is_nothrow_move_constructible T \<or> \<not> is_copy_constructible T"
  have G: "growth T v this (int p) x =
     seq (RawMemory_ctor T nc) (\<lambda>new_data.
       seq (catch_all
              (seq (placement_new (ptr_plus (GetAddress new_data) (int p)) (T_ctor x)) (\<lambda>_.
               seq (seq (if ?c then uninitialized_move_n T src p (GetAddress new_data)
                         else uninitialized_copy_n src p (GetAddress new_data))
                      (\<lambda>_. if ?c then uninitialized_move_n T (ptr_plus src (int p)) (n - p)
                                       (ptr_plus (ptr_plus (GetAddress new_data) (int p)) 1)
                            else uninitialized_copy_n (ptr_plus src (int p)) (n - p)
                                       (ptr_plus (ptr_plus (GetAddress new_data) (int p)) 1))) (\<lambda>_.
               seq (destroy_n src n) (\<lambda>_.
               data_Swap this new_data))))
              (\<lambda>e. seq (RawMemory_dtor new_data) (\<lambda>_. Raise e)))
         RawMemory_dtor)"
  proof -
    have sm: "size_t_minus_int (size' v) (int p) = size' v - p"
      using pn' by (simp add: size_t_minus_int_def n_def)
    show ?thesis
      unfolding growth_def if_seq sm nat_int src_def nc_def n_def GetAddress_def by (rule refl)
  qed
  have al': "allocatable T nc" using al unfolding nc_def n_def v_def .
  note ctor = RawMemory_ctor_spec [OF al', where w=w]
  let ?post = "\<lambda>w'. vectors w' = (vectors w)(this := v\<lparr>data' := \<lparr>buffer' = Ptr nb 0, capacity' = nc\<rparr>\<rparr>)
          \<and> length (heap w') = Suc nb \<and> shape w' ! nb = Some nc
          \<and> (\<forall>k. slot w' (Ptr nb k) = (if k \<le> n then Some (Some (ins ! k)) else if k < nc then Some None else None))
          \<and> set (faults w') \<subseteq> set (faults w)"
  have main: "case growth T v this (int p) x w of Return r w' \<Rightarrow> ?post w' | _ \<Rightarrow> True \<in> set (faults w)"
  proof (cases "RawMemory_ctor T nc w")
    case Undefined
    with ctor show ?thesis by simp
  next
    case (Raise e w1)
    with ctor show ?thesis by (simp add: G seq_def)
  next
    case (Return new_data w1)
    with ctor nc0 have nd: "new_data = \<lparr>buffer' = Ptr nb 0, capacity' = nc\<rparr>"
      and h1: "heap w1 = heap w @ [Some (replicate nc None)]"
      and v1: "vectors w1 = vectors w" and f1: "set (faults w1) \<subseteq> set (faults w)"
      by (simp_all add: nb_def)
    have s1: "slot w1 (Ptr c k) = (if c = nb then (if k < nc then Some None else None) else slot w (Ptr c k))" for c k
      using slot_append_block [OF h1] by (simp add: nb_def)
    have sh1: "shape w1 = shape w @ [Some nc]"
      by (rule shape_append_block [OF h1])
    have shnb: "(shape w @ [Some nc]) ! nb = Some nc" by (simp add: nb_def nth_append)
    have d1: "slot w1 (Ptr nb p) \<noteq> None" using pnc by (simp add: s1)
    note st = step_ctor [OF d1, of x]
    let ?R1 = "if ?c then uninitialized_move_n T src p (Ptr nb 0) else uninitialized_copy_n src p (Ptr nb 0)"
    let ?R2 = "if ?c then uninitialized_move_n T (ptr_plus src (int p)) (n - p) (Ptr nb (Suc p))
               else uninitialized_copy_n (ptr_plus src (int p)) (n - p) (Ptr nb (Suc p))"
    let ?H = "\<lambda>e. seq (RawMemory_dtor new_data) (\<lambda>_. Raise e)"
    have G1: "growth T v this (int p) x w =
        seq (catch_all
               (seq (placement_new (Ptr nb p) (T_ctor x)) (\<lambda>_.
                seq (seq ?R1 (\<lambda>_. ?R2)) (\<lambda>_.
                seq (destroy_n src n) (\<lambda>_. data_Swap this new_data)))) ?H)
          RawMemory_dtor w1"
      using Return by (simp add: G seq_def nd GetAddress_def)
    show ?thesis
    proof (cases "placement_new (Ptr nb p) (T_ctor x) w1")
      case Undefined
      with st show ?thesis by simp
    next
      case (Raise e w2)
      with st f1 show ?thesis by (auto simp: G1 seq_def catch_all_def split: result.splits)
    next
      case (Return r0 w1')
      with st have w1': "w1' = (put (Ptr nb p) (Some x) w1)\<lparr>faults := faults w1'\<rparr>"
        and f1': "set (faults w1') \<subseteq> set (faults w1)" by simp_all
      have s1': "slot w1' (Ptr c k) = (if c = nb \<and> k = p then Some (Some x) else slot w1 (Ptr c k))" for c k
        using d1 by (subst w1') (simp add: slot_put)
      have sh1': "shape w1' = shape w1" by (subst w1') simp
      have v1': "vectors w1' = vectors w1" by (subst w1') simp
      have G2: "growth T v this (int p) x w =
          seq (catch_all
                 (seq (seq ?R1 (\<lambda>_. ?R2)) (\<lambda>_.
                  seq (destroy_n src n) (\<lambda>_. data_Swap this new_data))) ?H)
            RawMemory_dtor w1'"
        using Return by (simp add: G1 seq_def catch_all_def)
      show ?thesis
      proof (cases src)
        case Wild
        with inv show ?thesis using vec_inv_not_Wild [of w this] by (simp add: src_def v_def)
      next
        case Null
        with inv have z: "n = 0"
          by (simp add: vec_inv_Null src_def v_def n_def)
        then have p0: "p = 0" and nc1: "nc = 1" using pn' by (simp_all add: nc_def)
        have xs0: "xs = []" using z by (simp add: xs_def elems_def n_def v_def)
        define w6 where "w6 = set_data this new_data w1'"
        have oldn: "buffer' (data' (vectors w1' this)) = Null"
          using Null by (simp add: v1' v1 src_def v_def)
        have res: "growth T v this (int p) x w = Return () w6"
          unfolding G2 using Null z p0
          by (simp add: seq_def catch_all_def data_Swap_eq RawMemory_dtor_Null [OF oldn] w6_def)
        have len1': "length (heap w1') = Suc nb"
          using sh1' h1 by (metis length_shape length_append_singleton nb_def)
        have "?post w6"
          using f1 f1' shnb len1'
          by (auto simp: w6_def v1' v1 v_def sh1' sh1 s1' s1 z p0 nc1 ins_def xs0 nd)
        then show ?thesis by (simp add: res)
      next
        case (Ptr b i)
        then have buf: "buffer' (data' (vectors w this)) = Ptr b i" by (simp add: src_def v_def)
        from inv have i0: "i = 0" and b: "b < nb" and shb: "shape w ! b = Some n"
          and live: "\<forall>k<n. \<exists>v. slot w (Ptr b k) = Some (Some v)"
          unfolding vec_inv_view [OF buf] using full by (simp_all add: nb_def n_def v_def)
        have bnb: "b \<noteq> nb" using b by simp
        have src: "src = Ptr b 0" using Ptr i0 by simp
        have e0: "xs = map (\<lambda>k. the (the (slot w (Ptr b k)))) [0..<n]"
          using elems_view [OF buf [unfolded i0] _ shb] b by (simp add: nb_def n_def v_def xs_def)
        have lxs: "length xs = n" by (simp add: e0)
        have xsk: "slot w (Ptr b k) = Some (Some (xs ! k))" if "k < n" for k
          using live that by (auto simp: e0)
        let ?M1 = "if ?c then uninitialized_move_n T (Ptr b 0) p (Ptr nb 0) else uninitialized_copy_n (Ptr b 0) p (Ptr nb 0)"
        let ?M2 = "if ?c then uninitialized_move_n T (Ptr b p) (n - p) (Ptr nb (Suc p))
                   else uninitialized_copy_n (Ptr b p) (n - p) (Ptr nb (Suc p))"
        let ?tail = "\<lambda>_::unit. seq (destroy_n (Ptr b 0) n) (\<lambda>_. data_Swap this new_data)"
        have G3: "growth T v this (int p) x w =
            seq (catch_all (seq (seq ?M1 (\<lambda>_. ?M2)) ?tail) ?H) RawMemory_dtor w1'"
          unfolding G2 src by simp
        have p1: "\<forall>k<p. \<exists>v. slot w1' (Ptr b (0 + k)) = Some (Some v)"
          using live bnb pn' by (simp add: s1' s1)
        have p2: "\<forall>k<p. slot w1' (Ptr nb (0 + k)) = Some None"
          using pnc by (simp add: s1' s1)
        note rel1 = relocate_spec [OF p1 p2 bnb, of T]
        show ?thesis
        proof (cases "?M1 w1'")
          case Undefined
          with rel1 f1 f1' show ?thesis by (auto simp: G3 seq_def catch_all_def)
        next
          case (Raise e w2)
          with rel1 f1 f1' show ?thesis by (auto simp: G3 seq_def catch_all_def split: result.splits)
        next
          case (Return r2 w2)
          with rel1 have a2: "\<forall>k<p. slot w2 (Ptr nb k) = slot w1' (Ptr b k)"
            and b2: "\<forall>k<p. \<exists>v. slot w2 (Ptr b k) = Some (Some v)"
            and c2: "\<forall>c k. \<not> (c = b \<and> k < p) \<and> \<not> (c = nb \<and> k < p) \<longrightarrow> slot w2 (Ptr c k) = slot w1' (Ptr c k)"
            and sh2: "shape w2 = shape w1'" and v2: "vectors w2 = vectors w1'"
            and f2: "set (faults w2) \<subseteq> set (faults w1')"
            by simp_all
          have G4: "growth T v this (int p) x w = seq (catch_all (seq ?M2 ?tail) ?H) RawMemory_dtor w2"
            using Return by (simp add: G3 seq_def catch_all_def)
          have q1: "\<forall>k<n - p. \<exists>v. slot w2 (Ptr b (p + k)) = Some (Some v)"
            using live bnb c2 by (simp add: s1' s1)
          have q2: "\<forall>k<n - p. slot w2 (Ptr nb (Suc p + k)) = Some None"
          proof (intro allI impI)
            fix k assume k: "k < n - p"
            then have "Suc (p + k) < nc" using nnc by simp
            moreover have "slot w2 (Ptr nb (Suc p + k)) = slot w1' (Ptr nb (Suc p + k))"
              using c2 bnb by simp
            ultimately show "slot w2 (Ptr nb (Suc p + k)) = Some None"
              by (simp add: s1' s1)
          qed
          note rel2 = relocate_spec [OF q1 q2 bnb, of T]
          show ?thesis
          proof (cases "?M2 w2")
            case Undefined
            with rel2 f1 f1' f2 show ?thesis by (auto simp: G4 seq_def catch_all_def)
          next
            case (Raise e w3)
            with rel2 f1 f1' f2 show ?thesis by (auto simp: G4 seq_def catch_all_def split: result.splits)
          next
            case (Return r3 w3)
            with rel2 have a3: "\<forall>k<n - p. slot w3 (Ptr nb (Suc p + k)) = slot w2 (Ptr b (p + k))"
              and b3: "\<forall>k<n - p. \<exists>v. slot w3 (Ptr b (p + k)) = Some (Some v)"
              and c3: "\<forall>c k. \<not> (c = b \<and> p \<le> k \<and> k < p + (n - p)) \<and> \<not> (c = nb \<and> Suc p \<le> k \<and> k < Suc p + (n - p))
                         \<longrightarrow> slot w3 (Ptr c k) = slot w2 (Ptr c k)"
              and sh3: "shape w3 = shape w2" and v3: "vectors w3 = vectors w2"
              and f3: "set (faults w3) \<subseteq> set (faults w2)"
              by simp_all
            have c3nb: "slot w3 (Ptr nb k) = slot w2 (Ptr nb k)" if "k \<le> p \<or> n < k" for k
              using c3 [rule_format, of nb k] bnb pn' that by auto
            have c3b: "slot w3 (Ptr b k) = slot w2 (Ptr b k)" if "k < p" for k
              using c3 [rule_format, of b k] bnb that by auto
            have c2nb: "slot w2 (Ptr nb k) = slot w1' (Ptr nb k)" if "p \<le> k" for k
              using c2 [rule_format, of nb k] bnb that by auto
            have c2b: "slot w2 (Ptr b k) = slot w1' (Ptr b k)" if "p \<le> k" for k
              using c2 [rule_format, of b k] bnb that by auto
            have l3: "\<forall>k<n. \<exists>v. slot w3 (Ptr b (0 + k)) = Some (Some v)"
            proof (intro allI impI)
              fix k assume k: "k < n"
              show "\<exists>v. slot w3 (Ptr b (0 + k)) = Some (Some v)"
              proof (cases "k < p")
                case True
                then have "slot w3 (Ptr b k) = slot w2 (Ptr b k)" by (rule c3b)
                with b2 True show ?thesis by simp
              next
                case False
                then have "k - p < n - p" "p + (k - p) = k" using k by simp_all
                with b3 show ?thesis by (metis add_0)
              qed
            qed
            from destroy_n_spec [OF l3] obtain w4 where
              d4: "destroy_n (Ptr b 0) n w3 = Return () w4"
              and s4: "slot w4 = overlay (slot w3) b 0 n (\<lambda>_. Some None)"
              and sh4: "shape w4 = shape w3" and v4: "vectors w4 = vectors w3" and f4: "faults w4 = faults w3"
              by blast
            define w5 where "w5 = set_data this new_data w4"
            have vall: "vectors w4 = vectors w" by (simp add: v4 v3 v2 v1' v1)
            have h5: "heap w5 = heap w4" and sl5: "slot w5 = slot w4" and f5: "faults w5 = faults w4"
              and v5: "vectors w5 = (vectors w)(this := v\<lparr>data' := new_data\<rparr>)"
              by (simp_all add: w5_def vall v_def)
            have oldb: "buffer' (data' (vectors w4 this)) = Ptr b 0"
              using src by (simp add: vall src_def v_def)
            have sh4': "shape w4 = shape w @ [Some nc]" by (simp add: sh4 sh3 sh2 sh1' sh1)
            have len4: "length (heap w4) = Suc nb"
              using sh4' by (metis length_shape length_append_singleton nb_def)
            have "shape w4 ! b = Some n" using b shb by (simp add: sh4' nth_append nb_def)
            then have alive: "heap w5 ! b \<noteq> None"
              using b len4 by (auto simp: shape_Some h5)
            have b5: "b < length (heap w5)" using b len4 by (simp add: h5)
            define w6 where "w6 = w5\<lparr>heap := (heap w5)[b := None]\<rparr>"
            have h6: "heap w6 = (heap w4)[b := None]" and v6: "vectors w6 = vectors w5"
              and f6: "faults w6 = faults w5"
              by (simp_all add: w6_def h5)
            have dt: "RawMemory_dtor (data' (vectors w4 this)) w5 = Return () w6"
              unfolding w6_def by (rule RawMemory_dtor_Ptr [OF oldb b5 alive])
            have res: "growth T v this (int p) x w = Return () w6"
              using Return d4 dt by (simp add: G4 seq_def catch_all_def data_Swap_eq w5_def)
            have s6: "slot w6 (Ptr nb k) = slot w3 (Ptr nb k)" for k
              using bnb by (simp add: slot_freed [OF h6] s4 overlay_at)
            have fin: "slot w6 (Ptr nb k) = (if k \<le> n then Some (Some (ins ! k)) else if k < nc then Some None else None)" for k
            proof -
              consider (lo) "k < p" | (eq) "k = p" | (mid) "p < k" "k \<le> n" | (hi) "n < k"
                using pn' by linarith
              then show ?thesis
              proof cases
                case lo
                then have "slot w3 (Ptr nb k) = slot w2 (Ptr nb k)" by (simp add: c3nb)
                also have "\<dots> = slot w1' (Ptr b k)" using a2 lo by simp
                also have "\<dots> = Some (Some (xs ! k))" using bnb lo pn' by (simp add: s1' s1 xsk)
                finally show ?thesis
                  using lo pn' by (simp add: s6 ins_def nth_insert lxs)
              next
                case eq
                then have "slot w3 (Ptr nb k) = slot w2 (Ptr nb k)" by (simp add: c3nb)
                also have "\<dots> = slot w1' (Ptr nb k)" using eq by (simp add: c2nb)
                also have "\<dots> = Some (Some x)" using eq by (simp add: s1')
                finally show ?thesis
                  using eq pn' by (simp add: s6 ins_def nth_insert lxs)
              next
                case mid
                define j where "j = k - Suc p"
                have j: "k = Suc p + j" "j < n - p" using mid by (simp_all add: j_def)
                from j(2) have "slot w3 (Ptr nb (Suc p + j)) = slot w2 (Ptr b (p + j))" using a3 by blast
                then have "slot w3 (Ptr nb k) = slot w2 (Ptr b (p + j))" by (simp add: j(1))
                also have "\<dots> = slot w1' (Ptr b (p + j))" by (simp add: c2b)
                also have "\<dots> = Some (Some (xs ! (p + j)))" using bnb j by (simp add: s1' s1 xsk)
                finally show ?thesis
                  using mid j pn' by (simp add: s6 ins_def nth_insert lxs)
              next
                case hi
                then have "slot w3 (Ptr nb k) = slot w2 (Ptr nb k)" by (simp add: c3nb)
                also have "\<dots> = slot w1' (Ptr nb k)" using hi pn' by (simp add: c2nb)
                also have "\<dots> = (if k < nc then Some None else None)" using hi pn' by (simp add: s1' s1)
                finally show ?thesis using hi by (simp add: s6)
              qed
            qed
            have "shape w6 ! nb = Some nc"
              using bnb by (simp add: shape_freed [OF h6] sh4' shnb)
            moreover have "length (heap w6) = Suc nb" using len4 by (simp add: h6)
            moreover have "set (faults w6) \<subseteq> set (faults w)"
              using f1 f1' f2 f3 by (auto simp: f6 f5 f4)
            ultimately have "?post w6"
              using fin by (simp add: v6 v5 nd)
            then show ?thesis by (simp add: res)
          qed
        qed
      qed
    qed
  qed
  from main show ?thesis
    unfolding ins_def xs_def nb_def nc_def n_def v_def .
qed

lemma step_move_assign:
  assumes "slot w s = Some (Some v)" and "slot w d = Some (Some u)" and "s \<noteq> d"
  shows "case T_move_assign T d s w of
           Return r w' \<Rightarrow>
             (\<forall>q. slot w' q = (if q = s then Some (Some (moved_from T v)) else if q = d then Some (Some v) else slot w q))
             \<and> shape w' = shape w \<and> vectors w' = vectors w \<and> set (faults w') \<subseteq> set (faults w)
         | _ \<Rightarrow> True \<in> set (faults w)"
  using assms
  by (auto simp: T_move_assign_def seq_def may_throw_def slot_put split: list.splits)

lemma move_loop_spec:
  assumes "\<forall>k\<le>m. \<exists>v. slot w (Ptr b (f + k)) = Some (Some v)"
  shows "case move_loop T m (Ptr b (Suc f)) (Ptr b f) w of
           Return r w' \<Rightarrow>
             (\<forall>c k. slot w' (Ptr c k) =
                (if c = b \<and> f \<le> k \<and> k < f + m then slot w (Ptr b (Suc k))
                 else if c = b \<and> k = f + m \<and> 0 < m then map_option (map_option (moved_from T)) (slot w (Ptr b k))
                 else slot w (Ptr c k)))
             \<and> shape w' = shape w \<and> vectors w' = vectors w \<and> set (faults w') \<subseteq> set (faults w)
         | _ \<Rightarrow> True \<in> set (faults w)"
  using assms
proof (induction m arbitrary: f w)
  case 0
  then show ?case by auto
next
  case (Suc m)
  from Suc.prems obtain u where u: "slot w (Ptr b f) = Some (Some u)"
    by (metis add.right_neutral le0)
  from Suc.prems obtain v where v: "slot w (Ptr b (Suc f)) = Some (Some v)"
    by (metis add_Suc_right add.right_neutral Suc_le_mono le0)
  have ne: "Ptr b (Suc f) \<noteq> Ptr b f" by simp
  note st = step_move_assign [OF v u ne, of T]
  show ?case
  proof (cases "T_move_assign T (Ptr b f) (Ptr b (Suc f)) w")
    case Undefined
    with st show ?thesis by (simp add: seq_def)
  next
    case (Raise e w1)
    with st show ?thesis by (simp add: seq_def)
  next
    case (Return r w1)
    with st have s1: "\<forall>q. slot w1 q = (if q = Ptr b (Suc f) then Some (Some (moved_from T v))
                                   else if q = Ptr b f then Some (Some v) else slot w q)"
      and sh1: "shape w1 = shape w" and v1: "vectors w1 = vectors w"
      and f1: "set (faults w1) \<subseteq> set (faults w)" by simp_all
    have p1: "\<forall>k\<le>m. \<exists>v. slot w1 (Ptr b (Suc f + k)) = Some (Some v)"
    proof (intro allI impI)
      fix k assume "k \<le> m"
      then have "Suc k \<le> Suc m" by simp
      with Suc.prems obtain v' where "slot w (Ptr b (f + Suc k)) = Some (Some v')" by blast
      then show "\<exists>v. slot w1 (Ptr b (Suc f + k)) = Some (Some v)" by (simp add: s1)
    qed
    note ih = Suc.IH [OF p1]
    show ?thesis
    proof (cases "move_loop T m (Ptr b (Suc (Suc f))) (Ptr b (Suc f)) w1")
      case Undefined
      with ih Return f1 show ?thesis by (auto simp: seq_def)
    next
      case (Raise e w2)
      with ih Return f1 show ?thesis by (auto simp: seq_def)
    next
      case (Return r2 w2)
      with ih have s2: "\<forall>c k. slot w2 (Ptr c k) =
                (if c = b \<and> Suc f \<le> k \<and> k < Suc f + m then slot w1 (Ptr b (Suc k))
                 else if c = b \<and> k = Suc f + m \<and> 0 < m then map_option (map_option (moved_from T)) (slot w1 (Ptr b k))
                 else slot w1 (Ptr c k))"
        and rest: "shape w2 = shape w1" "vectors w2 = vectors w1" "set (faults w2) \<subseteq> set (faults w1)"
        by simp_all
      have "\<forall>c k. slot w2 (Ptr c k) =
                (if c = b \<and> f \<le> k \<and> k < f + Suc m then slot w (Ptr b (Suc k))
                 else if c = b \<and> k = f + Suc m \<and> 0 < Suc m then map_option (map_option (moved_from T)) (slot w (Ptr b k))
                 else slot w (Ptr c k))"
        using v by (auto simp: s2 s1)
      with Return \<open>T_move_assign T (Ptr b f) (Ptr b (Suc f)) w = Return r w1\<close> rest sh1 v1 f1
      show ?thesis by (auto simp: seq_def)
    qed
  qed
qed

lemma move_backward_loop_spec:
  assumes "m \<le> l" and "\<forall>k\<le>m. \<exists>v. slot w (Ptr b (l - k)) = Some (Some v)"
  shows "case move_backward_loop T m (Ptr b l) (Ptr b (Suc l)) w of
           Return r w' \<Rightarrow>
             (\<forall>c k. slot w' (Ptr c k) =
                (if c = b \<and> l - m < k \<and> k \<le> l then slot w (Ptr b (k - 1))
                 else if c = b \<and> k = l - m \<and> 0 < m then map_option (map_option (moved_from T)) (slot w (Ptr b k))
                 else slot w (Ptr c k)))
             \<and> shape w' = shape w \<and> vectors w' = vectors w \<and> set (faults w') \<subseteq> set (faults w)
         | _ \<Rightarrow> True \<in> set (faults w)"
  using assms
proof (induction m arbitrary: l w)
  case 0
  then show ?case by auto
next
  case (Suc m)
  from Suc.prems(1) obtain l' where l: "l = Suc l'" by (cases l) simp_all
  have ml: "m \<le> l'" using Suc.prems(1) l by simp
  from Suc.prems(2) obtain u where u: "slot w (Ptr b l) = Some (Some u)"
    by (metis diff_zero le0)
  from Suc.prems(2) obtain v where v: "slot w (Ptr b l') = Some (Some v)"
    using l by (metis diff_Suc_1 Suc_le_mono le0 One_nat_def)
  have ne: "Ptr b l' \<noteq> Ptr b l" using l by simp
  note st = step_move_assign [OF v u ne, of T]
  have unf: "move_backward_loop T (Suc m) (Ptr b l) (Ptr b (Suc l)) =
      seq (T_move_assign T (Ptr b l) (Ptr b l')) (\<lambda>_. move_backward_loop T m (Ptr b l') (Ptr b (Suc l')))"
    by (simp add: ptr_plus_m1 l)
  let ?P = "\<lambda>res. case res of
           Return r w' \<Rightarrow>
             (\<forall>c k. slot w' (Ptr c k) =
                (if c = b \<and> l - Suc m < k \<and> k \<le> l then slot w (Ptr b (k - 1))
                 else if c = b \<and> k = l - Suc m \<and> 0 < Suc m then map_option (map_option (moved_from T)) (slot w (Ptr b k))
                 else slot w (Ptr c k)))
             \<and> shape w' = shape w \<and> vectors w' = vectors w \<and> set (faults w') \<subseteq> set (faults w)
         | _ \<Rightarrow> True \<in> set (faults w)"
  let ?L = "seq (T_move_assign T (Ptr b l) (Ptr b l')) (\<lambda>_. move_backward_loop T m (Ptr b l') (Ptr b (Suc l')))"
  have "?P (?L w)"
  proof (cases "T_move_assign T (Ptr b l) (Ptr b l') w")
    case Undefined
    with st show ?thesis by (simp add: seq_def)
  next
    case (Raise e w1)
    with st show ?thesis by (simp add: seq_def)
  next
    case (Return r w1)
    with st have s1: "\<forall>q. slot w1 q = (if q = Ptr b l' then Some (Some (moved_from T v))
                                   else if q = Ptr b l then Some (Some v) else slot w q)"
      and sh1: "shape w1 = shape w" and v1: "vectors w1 = vectors w"
      and f1: "set (faults w1) \<subseteq> set (faults w)" by simp_all
    have p1: "\<forall>k\<le>m. \<exists>v. slot w1 (Ptr b (l' - k)) = Some (Some v)"
    proof (intro allI impI)
      fix k assume "k \<le> m"
      then have "Suc k \<le> Suc m" by simp
      with Suc.prems(2) obtain v' where "slot w (Ptr b (l - Suc k)) = Some (Some v')" by blast
      then show "\<exists>v. slot w1 (Ptr b (l' - k)) = Some (Some v)" using l by (simp add: s1)
    qed
    note ih = Suc.IH [OF ml p1]
    show ?thesis
    proof (cases "move_backward_loop T m (Ptr b l') (Ptr b (Suc l')) w1")
      case Undefined
      with ih Return f1 show ?thesis by (auto simp: seq_def)
    next
      case (Raise e w2)
      with ih Return f1 show ?thesis by (auto simp: seq_def)
    next
      case (Return r2 w2)
      with ih have s2: "\<forall>c k. slot w2 (Ptr c k) =
                (if c = b \<and> l' - m < k \<and> k \<le> l' then slot w1 (Ptr b (k - 1))
                 else if c = b \<and> k = l' - m \<and> 0 < m then map_option (map_option (moved_from T)) (slot w1 (Ptr b k))
                 else slot w1 (Ptr c k))"
        and rest: "shape w2 = shape w1" "vectors w2 = vectors w1" "set (faults w2) \<subseteq> set (faults w1)"
        by simp_all
      have "\<forall>c k. slot w2 (Ptr c k) =
                (if c = b \<and> l - Suc m < k \<and> k \<le> l then slot w (Ptr b (k - 1))
                 else if c = b \<and> k = l - Suc m \<and> 0 < Suc m then map_option (map_option (moved_from T)) (slot w (Ptr b k))
                 else slot w (Ptr c k))"
        using v ml by (auto simp: s2 s1 l)
      with Return \<open>T_move_assign T (Ptr b l) (Ptr b l') w = Return r w1\<close> rest sh1 v1 f1
      show ?thesis by (auto simp: seq_def)
    qed
  qed
  then show ?case unfolding unf .
qed

text \<open>A buffer whose first \<open>length ys\<close> slots hold \<open>ys\<close> and whose other slots are raw.\<close>

lemma vec_inv_elems_intro:
  assumes buf: "buffer' (data' (vectors w this)) = Ptr b 0"
      and b: "b < length (heap w)"
      and sh: "shape w ! b = Some (capacity' (data' (vectors w this)))"
      and sz: "size' (vectors w this) = length ys"
      and le: "length ys \<le> capacity' (data' (vectors w this))"
      and sl: "\<forall>k. slot w (Ptr b k) =
                 (if k < length ys then Some (Some (ys ! k))
                  else if k < capacity' (data' (vectors w this)) then Some None else None)"
  shows "vec_inv w this \<and> elems w this = ys"
proof
  have sl': "slot w (Ptr b k) =
                 (if k < length ys then Some (Some (ys ! k))
                  else if k < capacity' (data' (vectors w this)) then Some None else None)" for k
    using sl by blast
  have live: "\<forall>k<size' (vectors w this). \<exists>v. slot w (Ptr b k) = Some (Some v)"
    by (simp add: sl' sz)
  have raw: "\<forall>k. size' (vectors w this) \<le> k \<and> k < capacity' (data' (vectors w this)) \<longrightarrow> slot w (Ptr b k) = Some None"
    by (simp add: sl' sz)
  show "vec_inv w this"
    unfolding vec_inv_view [OF buf] using b sh le live raw by (simp only: sz simp_thms)
  have "elems w this = map (\<lambda>k. the (the (slot w (Ptr b k)))) [0..<length ys]"
    using elems_view [OF buf b sh] sz le by simp
  also have "\<dots> = ys" by (rule nth_equalityI) (simp_all add: sl')
  finally show "elems w this = ys" .
qed

lemma growth_then_size:
  assumes inv: "vec_inv w this"
      and full: "capacity' (data' (vectors w this)) = size' (vectors w this)"
      and pn: "p \<le> size' (vectors w this)"
      and al: "allocatable T (if size' (vectors w this) = 0 then 1 else size' (vectors w this) * 2)"
  shows "case growth T (vectors w this) this (int p) x w of
           Return r w1 \<Rightarrow>
             (let w' = set_size this (size' (vectors w1 this) + 1) w1 in
              vec_inv w' this
              \<and> elems w' this = take p (elems w this) @ x # drop p (elems w this)
              \<and> size' (vectors w' this) = Suc (size' (vectors w this))
              \<and> data' (vectors w' this) =
                  \<lparr>buffer' = Ptr (length (heap w)) 0,
                   capacity' = (if size' (vectors w this) = 0 then 1 else size' (vectors w this) * 2)\<rparr>
              \<and> length (heap w') = Suc (length (heap w))
              \<and> set (faults w') \<subseteq> set (faults w))
         | _ \<Rightarrow> True \<in> set (faults w)"
proof (cases "growth T (vectors w this) this (int p) x w")
  case (Return r w1)
  define n where "n = size' (vectors w this)"
  define nc where "nc = (if n = 0 then 1 else n * 2)"
  define nb where "nb = length (heap w)"
  define ys where "ys = take p (elems w this) @ x # drop p (elems w this)"
  define w' where "w' = set_size this (size' (vectors w1 this) + 1) w1"
  have lxs: "length (elems w this) = n" 
    using inv by (cases "buffer' (data' (vectors w this))")
      (auto simp: elems_def slots_def n_def vec_inv_def Let_def split: option.splits if_splits)
  have lys: "length ys = Suc n" using pn by (simp add: ys_def lxs n_def [symmetric])
  from growth_spec [OF inv full pn al, where x=x] Return
  have v1: "vectors w1 = (vectors w)(this := (vectors w this)\<lparr>data' := \<lparr>buffer' = Ptr nb 0, capacity' = nc\<rparr>\<rparr>)"
    and l1: "length (heap w1) = Suc nb" and sh1: "shape w1 ! nb = Some nc"
    and s1: "\<forall>k. slot w1 (Ptr nb k) = (if k \<le> n then Some (Some (ys ! k)) else if k < nc then Some None else None)"
    and f1: "set (faults w1) \<subseteq> set (faults w)"
    by (simp_all add: n_def nc_def nb_def ys_def)
  have vw: "vectors w' this = \<lparr>data' = \<lparr>buffer' = Ptr nb 0, capacity' = nc\<rparr>, size' = Suc n\<rparr>"
    by (simp add: w'_def v1 n_def)
  have nnc: "Suc n \<le> nc" by (simp add: nc_def)
  have "vec_inv w' this \<and> elems w' this = ys"
  proof (rule vec_inv_elems_intro [where b=nb])
    show "buffer' (data' (vectors w' this)) = Ptr nb 0" by (simp add: vw)
    show "nb < length (heap w')" using l1 by (simp add: w'_def)
    show "shape w' ! nb = Some (capacity' (data' (vectors w' this)))" using sh1 by (simp add: vw) (simp add: w'_def)
    show "size' (vectors w' this) = length ys" by (simp add: vw lys)
    show "length ys \<le> capacity' (data' (vectors w' this))" using nnc by (simp add: vw lys)
    show "\<forall>k. slot w' (Ptr nb k) =
              (if k < length ys then Some (Some (ys ! k))
               else if k < capacity' (data' (vectors w' this)) then Some None else None)"
      using s1 by (simp add: vw lys less_Suc_eq_le) (simp add: w'_def)
  qed
  moreover have "size' (vectors w' this) = Suc n"
    and "data' (vectors w' this) = \<lparr>buffer' = Ptr nb 0, capacity' = nc\<rparr>"
    by (simp_all add: vw)
  moreover have "length (heap w') = Suc nb" using l1 by (simp add: w'_def)
  moreover have "set (faults w') \<subseteq> set (faults w)" using f1 by (simp add: w'_def)
  ultimately have goal: "vec_inv w' this
              \<and> elems w' this = take p (elems w this) @ x # drop p (elems w this)
              \<and> size' (vectors w' this) = Suc (size' (vectors w this))
              \<and> data' (vectors w' this) =
                  \<lparr>buffer' = Ptr (length (heap w)) 0,
                   capacity' = (if size' (vectors w this) = 0 then 1 else size' (vectors w this) * 2)\<rparr>
              \<and> length (heap w') = Suc (length (heap w))
              \<and> set (faults w') \<subseteq> set (faults w)"
    unfolding ys_def nb_def nc_def n_def by blast
  show ?thesis
    unfolding Return result.case Let_def w'_def [symmetric] by (rule goal)
next
  case Undefined
  with growth_spec [OF inv full pn al, where x=x] show ?thesis by simp
next
  case (Raise e w1)
  with growth_spec [OF inv full pn al, where x=x] show ?thesis by simp
qed

lemma length_elems: "vec_inv w this \<Longrightarrow> length (elems w this) = size' (vectors w this)"
  by (cases "buffer' (data' (vectors w this))")
    (auto simp: elems_def slots_def vec_inv_def Let_def split: option.splits if_splits)

lemma vec_inv_Ptr_cases:
  assumes "vec_inv w this" and "size' (vectors w this) < capacity' (data' (vectors w this))"
  obtains b where "buffer' (data' (vectors w this)) = Ptr b 0"
proof (cases "buffer' (data' (vectors w this))")
  case Null
  with assms show ?thesis by (simp add: vec_inv_Null)
next
  case (Ptr b i)
  with assms(1) have "i = 0" by (simp add: vec_inv_view [OF Ptr])
  with Ptr that show ?thesis by simp
next
  case Wild
  with assms(1) show ?thesis using vec_inv_not_Wild [of w this] by simp
qed

lemma append_in_place:
  assumes inv: "vec_inv w this"
      and lt: "size' (vectors w this) < capacity' (data' (vectors w this))"
  shows "case placement_new (ptr_plus (buffer' (data' (vectors w this))) (int (size' (vectors w this)))) (T_ctor x) w of
           Return r w1 \<Rightarrow>
             (\<forall>w'. w' = set_size this (size' (vectors w1 this) + 1) w1 \<longrightarrow>
                vec_inv w' this \<and> elems w' this = elems w this @ [x]
                \<and> vectors w' = (vectors w)(this := (vectors w this)\<lparr>size' := Suc (size' (vectors w this))\<rparr>)
                \<and> shape w' = shape w \<and> set (faults w') \<subseteq> set (faults w))
         | Raise e w1 \<Rightarrow> True \<in> set (faults w) \<and> heap w1 = heap w \<and> vectors w1 = vectors w
         | Undefined \<Rightarrow> False"
proof -
  define n where "n = size' (vectors w this)"
  define cap where "cap = capacity' (data' (vectors w this))"
  define xs where "xs = elems w this"
  from inv lt obtain b where buf: "buffer' (data' (vectors w this)) = Ptr b 0"
    by (rule vec_inv_Ptr_cases)
  from inv have b: "b < length (heap w)" and shb: "shape w ! b = Some cap" and ncap: "n \<le> cap"
    and live: "\<forall>k<n. \<exists>v. slot w (Ptr b k) = Some (Some v)"
    and raw: "\<forall>k. n \<le> k \<and> k < cap \<longrightarrow> slot w (Ptr b k) = Some None"
    unfolding vec_inv_view [OF buf] by (simp_all add: cap_def n_def)
  have lt': "n < cap" using lt by (simp add: n_def cap_def)
  have e0: "xs = map (\<lambda>k. the (the (slot w (Ptr b k)))) [0..<n]"
    using elems_view [OF buf b shb] ncap by (simp add: n_def xs_def)
  have xsk: "slot w (Ptr b k) = Some (Some (xs ! k))" if "k < n" for k
    using live that by (auto simp: e0)
  have d: "slot w (Ptr b n) \<noteq> None" using raw lt' by simp
  note st = step_ctor [OF d, of x]
  have ptr: "ptr_plus (buffer' (data' (vectors w this))) (int (size' (vectors w this))) = Ptr b n"
    by (simp add: buf n_def)
  show ?thesis
    unfolding ptr
  proof (cases "placement_new (Ptr b n) (T_ctor x) w")
    case Undefined
    with st show "case placement_new (Ptr b n) (T_ctor x) w of
           Return r w1 \<Rightarrow>
             (\<forall>w'. w' = set_size this (size' (vectors w1 this) + 1) w1 \<longrightarrow>
                vec_inv w' this \<and> elems w' this = elems w this @ [x]
                \<and> vectors w' = (vectors w)(this := (vectors w this)\<lparr>size' := Suc (size' (vectors w this))\<rparr>)
                \<and> shape w' = shape w \<and> set (faults w') \<subseteq> set (faults w))
         | Raise e w1 \<Rightarrow> True \<in> set (faults w) \<and> heap w1 = heap w \<and> vectors w1 = vectors w
         | Undefined \<Rightarrow> False" by simp
  next
    case (Raise e w1)
    with st show "case placement_new (Ptr b n) (T_ctor x) w of
           Return r w1 \<Rightarrow>
             (\<forall>w'. w' = set_size this (size' (vectors w1 this) + 1) w1 \<longrightarrow>
                vec_inv w' this \<and> elems w' this = elems w this @ [x]
                \<and> vectors w' = (vectors w)(this := (vectors w this)\<lparr>size' := Suc (size' (vectors w this))\<rparr>)
                \<and> shape w' = shape w \<and> set (faults w') \<subseteq> set (faults w))
         | Raise e w1 \<Rightarrow> True \<in> set (faults w) \<and> heap w1 = heap w \<and> vectors w1 = vectors w
         | Undefined \<Rightarrow> False" by simp
  next
    case (Return r w1)
    with st have w1: "w1 = (put (Ptr b n) (Some x) w)\<lparr>faults := faults w1\<rparr>"
      and f1: "set (faults w1) \<subseteq> set (faults w)" by simp_all
    have s1: "slot w1 (Ptr c k) = (if c = b \<and> k = n then Some (Some x) else slot w (Ptr c k))" for c k
      using d by (subst w1) (simp add: slot_put)
    have sh1: "shape w1 = shape w" by (subst w1) simp
    have v1: "vectors w1 = vectors w" by (subst w1) simp
    define w' where "w' = set_size this (size' (vectors w1 this) + 1) w1"
    have vw: "vectors w' = (vectors w)(this := (vectors w this)\<lparr>size' := Suc n\<rparr>)"
      by (simp add: w'_def v1 n_def)
    have shw: "shape w' = shape w" by (simp add: w'_def sh1)
    have lw: "length (heap w') = length (heap w)" using shw by (metis length_shape)
    have sw: "slot w' (Ptr b k) = (if k = n then Some (Some x) else slot w (Ptr b k))" for k
      by (simp add: w'_def s1)
    have "vec_inv w' this \<and> elems w' this = xs @ [x]"
    proof (rule vec_inv_elems_intro [where b=b])
      show "buffer' (data' (vectors w' this)) = Ptr b 0" using buf by (simp add: vw)
      show "b < length (heap w')" using b lw by simp
      show "shape w' ! b = Some (capacity' (data' (vectors w' this)))" using shb by (simp add: vw shw cap_def)
      show "size' (vectors w' this) = length (xs @ [x])" by (simp add: vw e0)
      show "length (xs @ [x]) \<le> capacity' (data' (vectors w' this))" using lt' by (simp add: vw e0 cap_def)
      show "\<forall>k. slot w' (Ptr b k) =
              (if k < length (xs @ [x]) then Some (Some ((xs @ [x]) ! k))
               else if k < capacity' (data' (vectors w' this)) then Some None else None)"
      proof
        fix k
        have lx: "length xs = n" by (simp add: e0)
        consider "k < n" | "k = n" | "n < k" "k < cap" | "cap \<le> k" using lt' by linarith
        then show "slot w' (Ptr b k) =
              (if k < length (xs @ [x]) then Some (Some ((xs @ [x]) ! k))
               else if k < capacity' (data' (vectors w' this)) then Some None else None)"
        proof cases
          case 1
          then show ?thesis by (simp add: sw xsk lx nth_append)
        next
          case 2
          then show ?thesis using lx by (simp add: sw nth_append)
        next
          case 3
          then show ?thesis using raw by (simp add: sw lx vw cap_def)
        next
          case 4
          have "slot w (Ptr b k) = None"
            using 4 b shb by (auto simp: shape_Some slot_in_block)
          then show ?thesis using 4 lt' by (simp add: sw lx vw cap_def)
        qed
      qed
    qed
    then show "case placement_new (Ptr b n) (T_ctor x) w of
           Return r w1 \<Rightarrow>
             (\<forall>w'. w' = set_size this (size' (vectors w1 this) + 1) w1 \<longrightarrow>
                vec_inv w' this \<and> elems w' this = elems w this @ [x]
                \<and> vectors w' = (vectors w)(this := (vectors w this)\<lparr>size' := Suc (size' (vectors w this))\<rparr>)
                \<and> shape w' = shape w \<and> set (faults w') \<subseteq> set (faults w))
         | Raise e w1 \<Rightarrow> True \<in> set (faults w) \<and> heap w1 = heap w \<and> vectors w1 = vectors w
         | Undefined \<Rightarrow> False"
      using Return vw shw f1 by (simp add: w'_def [symmetric] xs_def n_def) (simp add: w'_def)
  qed
qed

lemma seq_spec:
  assumes "case m w of Return r w1 \<Rightarrow> P r w1 | _ \<Rightarrow> F"
      and "\<And>r w1. m w = Return r w1 \<Longrightarrow> P r w1 \<Longrightarrow> (case f r w1 of Return r' w' \<Rightarrow> Q r' w' | _ \<Rightarrow> F)"
  shows "case seq m f w of Return r' w' \<Rightarrow> Q r' w' | _ \<Rightarrow> F"
  using assms by (cases "m w") (simp_all add: seq_def)

lemma weaken_spec:
  assumes "case m of Return r w1 \<Rightarrow> P r w1 | _ \<Rightarrow> F"
      and "\<And>r w1. P r w1 \<Longrightarrow> Q r w1" and "F \<Longrightarrow> G"
  shows "case m of Return r w1 \<Rightarrow> Q r w1 | _ \<Rightarrow> G"
  using assms by (cases m) simp_all

lemma T_ctor_spec:
  "case T_ctor x w of
     Return r w1 \<Rightarrow> r = x \<and> heap w1 = heap w \<and> vectors w1 = vectors w \<and> set (faults w1) \<subseteq> set (faults w)
   | _ \<Rightarrow> True \<in> set (faults w)"
  by (auto simp: T_ctor_def seq_def may_throw_def split: list.splits)

lemma step_move_assign_local:
  assumes "slot w d = Some (Some u)"
  shows "case T_move_assign_local d x w of
           Return r w' \<Rightarrow>
             (\<forall>q. slot w' q = (if q = d then Some (Some x) else slot w q))
             \<and> shape w' = shape w \<and> vectors w' = vectors w \<and> set (faults w') \<subseteq> set (faults w)
         | _ \<Rightarrow> True \<in> set (faults w)"
  using assms
  by (auto simp: T_move_assign_local_def seq_def may_throw_def slot_put split: list.splits)

lemma step_move_view:
  assumes "slot w s = Some (Some v)" and "slot w d \<noteq> None" and "s \<noteq> d"
  shows "case placement_new d (T_move_ctor T s) w of
           Return r w' \<Rightarrow>
             (\<forall>q. slot w' q = (if q = d then Some (Some v) else if q = s then Some (Some (moved_from T v)) else slot w q))
             \<and> shape w' = shape w \<and> vectors w' = vectors w \<and> set (faults w') \<subseteq> set (faults w)
         | _ \<Rightarrow> True \<in> set (faults w)"
proof (cases "placement_new d (T_move_ctor T s) w")
  case (Return r w')
  with step_move [OF assms(1,2), of T]
  have w': "w' = (put d (Some v) (put s (Some (moved_from T v)) w))\<lparr>faults := faults w'\<rparr>"
    and f: "set (faults w') \<subseteq> set (faults w)" by simp_all
  have "slot w' q = (if q = d then Some (Some v) else if q = s then Some (Some (moved_from T v)) else slot w q)" for q
    using assms by (subst w') (auto simp: slot_put)
  moreover have "shape w' = shape w" by (subst w') simp
  moreover have "vectors w' = vectors w" by (subst w') simp
  ultimately show ?thesis using Return f by simp
next
  case Undefined
  with step_move [OF assms(1,2), of T] show ?thesis by simp
next
  case (Raise e w')
  with step_move [OF assms(1,2), of T] show ?thesis by simp
qed

lemma shift_spec:
  assumes live: "\<And>k. k < n \<Longrightarrow> slot w (Ptr b k) = Some (Some (xs ! k))"
      and raw: "slot w (Ptr b n) = Some None"
      and pn: "p < n" and lx: "length xs = n"
  shows "case seq (T_ctor x) (\<lambda>temp.
                seq (placement_new (Ptr b n) (T_move_ctor T (Ptr b (n - 1)))) (\<lambda>_.
                seq (move_backward_loop T (n - 1 - p) (Ptr b (n - 1)) (Ptr b n)) (\<lambda>_.
                T_move_assign_local (Ptr b p) temp))) w of
           Return r w' \<Rightarrow>
             (\<forall>c k. slot w' (Ptr c k) =
                (if c = b \<and> k \<le> n then Some (Some ((take p xs @ x # drop p xs) ! k)) else slot w (Ptr c k)))
             \<and> shape w' = shape w \<and> vectors w' = vectors w \<and> set (faults w') \<subseteq> set (faults w)
         | _ \<Rightarrow> True \<in> set (faults w)"
proof (rule seq_spec [OF T_ctor_spec])
  fix temp and w1 :: "'a world"
  assume "temp = x \<and> heap w1 = heap w \<and> vectors w1 = vectors w \<and> set (faults w1) \<subseteq> set (faults w)"
  then have t: "temp = x" and h1: "heap w1 = heap w" and v1: "vectors w1 = vectors w"
    and f1: "set (faults w1) \<subseteq> set (faults w)" by simp_all
  have s1: "slot w1 = slot w" using h1 by (rule slot_eq_heap)
  have sh1: "shape w1 = shape w" using h1 by (rule shape_eq_heap)
  have n1: "Suc (n - 1) = n" using pn by simp
  have a: "slot w1 (Ptr b (n - 1)) = Some (Some (xs ! (n - 1)))" using live [of "n - 1"] pn by (simp add: s1)
  have b: "slot w1 (Ptr b n) \<noteq> None" using raw by (simp add: s1)
  have c: "Ptr b (n - 1) \<noteq> Ptr b n" using pn by simp
  have "case placement_new (Ptr b n) (T_move_ctor T (Ptr b (n - 1))) w1 of
          Return r w2 \<Rightarrow>
            (\<forall>q. slot w2 q = (if q = Ptr b n then Some (Some (xs ! (n - 1)))
                  else if q = Ptr b (n - 1) then Some (Some (moved_from T (xs ! (n - 1)))) else slot w1 q))
            \<and> shape w2 = shape w1 \<and> vectors w2 = vectors w1 \<and> set (faults w2) \<subseteq> set (faults w1)
        | _ \<Rightarrow> True \<in> set (faults w)"
    using step_move_view [OF a b c, of T] f1 by (auto split: result.splits)
  then show "case seq (placement_new (Ptr b n) (T_move_ctor T (Ptr b (n - 1)))) (\<lambda>_.
                seq (move_backward_loop T (n - 1 - p) (Ptr b (n - 1)) (Ptr b n)) (\<lambda>_.
                T_move_assign_local (Ptr b p) temp)) w1 of
           Return r w' \<Rightarrow>
             (\<forall>c k. slot w' (Ptr c k) =
                (if c = b \<and> k \<le> n then Some (Some ((take p xs @ x # drop p xs) ! k)) else slot w (Ptr c k)))
             \<and> shape w' = shape w \<and> vectors w' = vectors w \<and> set (faults w') \<subseteq> set (faults w)
         | _ \<Rightarrow> True \<in> set (faults w)"
  proof (rule seq_spec)
    fix r2 and w2 :: "'a world"
    assume "(\<forall>q. slot w2 q = (if q = Ptr b n then Some (Some (xs ! (n - 1)))
                  else if q = Ptr b (n - 1) then Some (Some (moved_from T (xs ! (n - 1)))) else slot w1 q))
            \<and> shape w2 = shape w1 \<and> vectors w2 = vectors w1 \<and> set (faults w2) \<subseteq> set (faults w1)"
    then have s2: "\<And>q. slot w2 q = (if q = Ptr b n then Some (Some (xs ! (n - 1)))
                  else if q = Ptr b (n - 1) then Some (Some (moved_from T (xs ! (n - 1)))) else slot w q)"
      and sh2: "shape w2 = shape w" and v2: "vectors w2 = vectors w"
      and f2: "set (faults w2) \<subseteq> set (faults w)"
      using s1 sh1 v1 f1 by auto
    have s2': "slot w2 (Ptr c k) = (if c = b \<and> k = n then Some (Some (xs ! (n - 1)))
                  else if c = b \<and> k = n - 1 then Some (Some (moved_from T (xs ! (n - 1)))) else slot w (Ptr c k))" for c k
      by (simp add: s2)
    have m: "n - 1 - p \<le> n - 1" by simp
    have l2: "\<forall>k\<le>n - 1 - p. \<exists>v. slot w2 (Ptr b (n - 1 - k)) = Some (Some v)"
    proof (intro allI impI)
      fix k assume "k \<le> n - 1 - p"
      then have "n - 1 - k < n" using pn by simp
      then show "\<exists>v. slot w2 (Ptr b (n - 1 - k)) = Some (Some v)"
        using live [of "n - 1 - k"] by (simp add: s2')
    qed
    have pp: "n - 1 - (n - 1 - p) = p" using pn by simp
    have "case move_backward_loop T (n - 1 - p) (Ptr b (n - 1)) (Ptr b n) w2 of
            Return r w3 \<Rightarrow>
              (\<forall>c k. slot w3 (Ptr c k) =
                (if c = b \<and> p < k \<and> k \<le> n - 1 then slot w2 (Ptr b (k - 1))
                 else if c = b \<and> k = p \<and> 0 < n - 1 - p then map_option (map_option (moved_from T)) (slot w2 (Ptr b k))
                 else slot w2 (Ptr c k)))
              \<and> shape w3 = shape w2 \<and> vectors w3 = vectors w2 \<and> set (faults w3) \<subseteq> set (faults w2)
          | _ \<Rightarrow> True \<in> set (faults w)"
      using move_backward_loop_spec [OF m l2, of T] f2 unfolding n1 pp by (auto split: result.splits)
    then show "case seq (move_backward_loop T (n - 1 - p) (Ptr b (n - 1)) (Ptr b n)) (\<lambda>_.
                T_move_assign_local (Ptr b p) temp) w2 of
           Return r w' \<Rightarrow>
             (\<forall>c k. slot w' (Ptr c k) =
                (if c = b \<and> k \<le> n then Some (Some ((take p xs @ x # drop p xs) ! k)) else slot w (Ptr c k)))
             \<and> shape w' = shape w \<and> vectors w' = vectors w \<and> set (faults w') \<subseteq> set (faults w)
         | _ \<Rightarrow> True \<in> set (faults w)"
    proof (rule seq_spec)
      fix r3 and w3 :: "'a world"
      assume "(\<forall>c k. slot w3 (Ptr c k) =
                (if c = b \<and> p < k \<and> k \<le> n - 1 then slot w2 (Ptr b (k - 1))
                 else if c = b \<and> k = p \<and> 0 < n - 1 - p then map_option (map_option (moved_from T)) (slot w2 (Ptr b k))
                 else slot w2 (Ptr c k)))
              \<and> shape w3 = shape w2 \<and> vectors w3 = vectors w2 \<and> set (faults w3) \<subseteq> set (faults w2)"
      then have s3: "\<And>c k. slot w3 (Ptr c k) =
                (if c = b \<and> p < k \<and> k \<le> n - 1 then slot w2 (Ptr b (k - 1))
                 else if c = b \<and> k = p \<and> 0 < n - 1 - p then map_option (map_option (moved_from T)) (slot w2 (Ptr b k))
                 else slot w2 (Ptr c k))"
        and sh3: "shape w3 = shape w" and v3: "vectors w3 = vectors w"
        and f3: "set (faults w3) \<subseteq> set (faults w)"
        using sh2 v2 f2 by auto
      have "\<exists>u. slot w3 (Ptr b p) = Some (Some u)"
      proof (cases "0 < n - 1 - p")
        case True
        then have "p < n - 1" by simp
        then show ?thesis using live [of p] pn by (simp add: s3 s2')
      next
        case False
        then have "p = n - 1" using pn by simp
        then show ?thesis using pn by (simp add: s3 s2')
      qed
      then obtain u where u: "slot w3 (Ptr b p) = Some (Some u)" ..
      show "case T_move_assign_local (Ptr b p) temp w3 of
           Return r w' \<Rightarrow>
             (\<forall>c k. slot w' (Ptr c k) =
                (if c = b \<and> k \<le> n then Some (Some ((take p xs @ x # drop p xs) ! k)) else slot w (Ptr c k)))
             \<and> shape w' = shape w \<and> vectors w' = vectors w \<and> set (faults w') \<subseteq> set (faults w)
         | _ \<Rightarrow> True \<in> set (faults w)"
      proof (rule weaken_spec [OF step_move_assign_local [OF u, of temp]])
        fix r4 and w4 :: "'a world"
        assume "(\<forall>q. slot w4 q = (if q = Ptr b p then Some (Some temp) else slot w3 q))
             \<and> shape w4 = shape w3 \<and> vectors w4 = vectors w3 \<and> set (faults w4) \<subseteq> set (faults w3)"
        then have s4: "\<And>c k. slot w4 (Ptr c k) = (if c = b \<and> k = p then Some (Some x) else slot w3 (Ptr c k))"
          and sh4: "shape w4 = shape w" and v4: "vectors w4 = vectors w"
          and f4: "set (faults w4) \<subseteq> set (faults w)"
          using sh3 v3 f3 t by auto
        have "slot w4 (Ptr c k) =
                (if c = b \<and> k \<le> n then Some (Some ((take p xs @ x # drop p xs) ! k)) else slot w (Ptr c k))" for c k
        proof (cases "c = b \<and> k \<le> n")
          case False
          then show ?thesis using pn by (auto simp: s4 s3 s2')
        next
          case True
          then have cb: "c = b" and kn: "k \<le> n" by simp_all
          have ni: "(take p xs @ x # drop p xs) ! k = (if k < p then xs ! k else if k = p then x else xs ! (k - 1))"
            using nth_insert [of p xs k x] pn kn lx by simp
          consider "k < p" | "k = p" | "p < k" "k \<le> n - 1" | "k = n" using kn by linarith
          then show ?thesis
          proof cases
            case 1
            then have "k < n" "k \<noteq> n - 1" "k \<noteq> n" using pn by simp_all
            then show ?thesis using 1 live [of k] ni by (simp add: cb s4 s3 s2')
          next
            case 2
            then show ?thesis using kn ni by (simp add: cb s4)
          next
            case 3
            then have "k - 1 < n" "k - 1 \<noteq> n - 1" "k - 1 \<noteq> n" by simp_all
            then show ?thesis using 3 kn live [of "k - 1"] ni by (simp add: cb s4 s3 s2')
          next
            case 4
            then have "\<not> k \<le> n - 1" "k \<noteq> p" "\<not> k < p" using pn by simp_all
            then show ?thesis using 4 ni by (simp add: cb s4 s3 s2')
          qed
        qed
        then show "(\<forall>c k. slot w4 (Ptr c k) =
                (if c = b \<and> k \<le> n then Some (Some ((take p xs @ x # drop p xs) ! k)) else slot w (Ptr c k)))
             \<and> shape w4 = shape w \<and> vectors w4 = vectors w \<and> set (faults w4) \<subseteq> set (faults w)"
          using sh4 v4 f4 by blast
      next
        assume "True \<in> set (faults w3)"
        then show "True \<in> set (faults w)" using f3 by blast
      qed
    qed
  qed
qed

lemma catch_spec:
  assumes "case m w of Return r w1 \<Rightarrow> P r w1 | _ \<Rightarrow> F"
      and "\<And>e s r s'. h e s \<noteq> Return r s'"
  shows "case catch_all m h w of Return r w1 \<Rightarrow> P r w1 | _ \<Rightarrow> F"
proof (cases "m w")
  case (Raise e s)
  with assms(1) have F by simp
  moreover have "catch_all m h w = h e s" using Raise by (simp add: catch_all_def)
  moreover have "\<forall>r s'. h e s \<noteq> Return r s'" using assms(2) by blast
  ultimately show ?thesis by (cases "h e s") auto
qed (use assms(1) in \<open>simp_all add: catch_all_def\<close>)

lemma rethrow_not_Return: "seq m (\<lambda>_. Raise e) s \<noteq> Return r s'"
  by (simp add: seq_def split: result.splits)

lemma to_int_small: "p < 2 ^ 31 \<Longrightarrow> to_int (int p) = int p"
proof -
  assume "p < 2 ^ 31"
  then have "int p < 2 ^ 31" by (metis of_nat_less_iff of_nat_numeral of_nat_power)
  then show ?thesis by (simp add: to_int_def)
qed

lemma ptr_diff_begin:
  assumes "vec_inv w this" and "p \<le> size' (vectors w this)"
  shows "ptr_diff (ptr_plus (begin' (vectors w this)) (int p)) (begin' (vectors w this)) = Some (int p)"
proof (cases "buffer' (data' (vectors w this))")
  case Null
  with assms show ?thesis by (simp add: vec_inv_Null begin'_def GetAddress_def ptr_plus_def ptr_diff_def)
next
  case (Ptr b i)
  then show ?thesis by (simp add: begin'_def GetAddress_def ptr_diff_def)
next
  case Wild
  with assms(1) show ?thesis using vec_inv_not_Wild [of w this] by simp
qed

lemma in_place_post:
  assumes inv: "vec_inv w this"
      and lt: "size' (vectors w this) < capacity' (data' (vectors w this))"
      and buf: "buffer' (data' (vectors w this)) = Ptr b 0"
      and ly: "length ys = Suc (size' (vectors w this))"
      and v1: "vectors w1 = vectors w" and sh1: "shape w1 = shape w"
      and s1: "\<And>k. slot w1 (Ptr b k) = (if k \<le> size' (vectors w this) then Some (Some (ys ! k)) else slot w (Ptr b k))"
      and w': "w' = set_size this (size' (vectors w1 this) + 1) w1"
  shows "vec_inv w' this \<and> elems w' this = ys"
proof (rule vec_inv_elems_intro [where b=b])
  define n where "n = size' (vectors w this)"
  define cap where "cap = capacity' (data' (vectors w this))"
  from inv have b: "b < length (heap w)" and shb: "shape w ! b = Some cap" and ncap: "n \<le> cap"
    and raw: "\<forall>k. n \<le> k \<and> k < cap \<longrightarrow> slot w (Ptr b k) = Some None"
    unfolding vec_inv_view [OF buf] by (simp_all add: cap_def n_def)
  have vw: "vectors w' = (vectors w)(this := (vectors w this)\<lparr>size' := Suc n\<rparr>)"
    by (simp add: w' v1 n_def)
  have shw: "shape w' = shape w" by (simp add: w' sh1)
  have lw: "length (heap w') = length (heap w)" using shw by (metis length_shape)
  have sw: "slot w' (Ptr b k) = (if k \<le> n then Some (Some (ys ! k)) else slot w (Ptr b k))" for k
    by (simp add: w' s1 n_def)
  show "buffer' (data' (vectors w' this)) = Ptr b 0" using buf by (simp add: vw)
  show "b < length (heap w')" using b lw by simp
  show "shape w' ! b = Some (capacity' (data' (vectors w' this)))" using shb by (simp add: vw shw cap_def)
  show "size' (vectors w' this) = length ys" by (simp add: vw ly n_def)
  show "length ys \<le> capacity' (data' (vectors w' this))" using lt by (simp add: vw ly cap_def)
  show "\<forall>k. slot w' (Ptr b k) =
          (if k < length ys then Some (Some (ys ! k))
           else if k < capacity' (data' (vectors w' this)) then Some None else None)"
  proof
    fix k
    consider "k \<le> n" | "n < k" "k < cap" | "cap \<le> k" "n < k" using lt by (fold n_def cap_def) linarith
    then show "slot w' (Ptr b k) =
          (if k < length ys then Some (Some (ys ! k))
           else if k < capacity' (data' (vectors w' this)) then Some None else None)"
    proof cases
      case 1
      then show ?thesis by (simp add: sw ly n_def)
    next
      case 2
      then show ?thesis using raw by (simp add: sw ly vw) (simp add: n_def cap_def)
    next
      case 3
      have "slot w (Ptr b k) = None"
        using 3 b shb by (auto simp: shape_Some slot_in_block)
      then show ?thesis using 3 by (simp add: sw ly vw) (simp add: n_def cap_def)
    qed
  qed
qed

lemma interior_eq:
  assumes buf: "buffer' (data' v) = Ptr b 0" and pn: "p < size' v" and lt: "size' v < capacity' (data' v)"
  shows "seq (T_ctor x) (\<lambda>temp.
           case RawMemory_index (data' v) (size_t_minus (size' v) 1) of
             None \<Rightarrow> (\<lambda>_. Undefined)
           | Some back \<Rightarrow>
               seq (placement_new (end' v) (T_move_ctor T back)) (\<lambda>_.
               seq (std_move_backward T (ptr_plus (begin' v) (int p)) (ptr_plus (end' v) (- 1)) (end' v)) (\<lambda>_.
               T_move_assign_local (ptr_plus (begin' v) (int p)) temp)))
         = seq (T_ctor x) (\<lambda>temp.
                seq (placement_new (Ptr b (size' v)) (T_move_ctor T (Ptr b (size' v - 1)))) (\<lambda>_.
                seq (move_backward_loop T (size' v - 1 - p) (Ptr b (size' v - 1)) (Ptr b (size' v))) (\<lambda>_.
                T_move_assign_local (Ptr b p) temp)))"
proof -
  have sm: "size_t_minus (size' v) (Suc 0) = size' v - Suc 0" using pn by (simp add: size_t_minus_def)
  have lt2: "size' v - 1 < capacity' (data' v)" using lt by simp
  have a: "RawMemory_index (data' v) (size_t_minus (size' v) 1) = Some (Ptr b (size' v - 1))"
    using ptr_plus_Ptr [of b 0 "size' v - 1"] lt2 by (simp add: RawMemory_index_def sm buf)
  have e: "end' v = Ptr b (size' v)" "begin' v = Ptr b 0"
    using buf by (simp_all add: end'_def begin'_def GetAddress_def)
  have m1: "ptr_plus (Ptr b (size' v)) (- 1) = Ptr b (size' v - 1)"
    using pn by (simp add: ptr_plus_m1)
  have "int (size' v - 1) - int p \<ge> 0" using pn by simp
  moreover have "nat (int (size' v - 1) - int p) = size' v - 1 - p" by simp
  ultimately have r: "range_length (Ptr b p) (Ptr b (size' v - 1)) = Some (size' v - 1 - p)"
    unfolding range_length_def ptr_diff_def by simp
  have mb: "std_move_backward T (Ptr b p) (Ptr b (size' v - 1)) (Ptr b (size' v))
            = move_backward_loop T (size' v - 1 - p) (Ptr b (size' v - 1)) (Ptr b (size' v))"
    unfolding std_move_backward_def r by simp
  show ?thesis
    unfolding a e m1 option.case ptr_plus_Ptr using mb by simp
qed

lemma Emplace_nogrowth:
  assumes "RawMemory_Capacity (data' (vectors w this)) \<noteq> size' (vectors w this)"
      and "ptr_diff pos (begin' (vectors w this)) = Some d"
  shows "Emplace T this pos x w =
     seq (catch_all
            (if pos = end' (vectors w this) then placement_new (end' (vectors w this)) (T_ctor x)
             else
               seq (T_ctor x) (\<lambda>temp.
                 case RawMemory_index (data' (vectors w this)) (size_t_minus (size' (vectors w this)) 1) of
                   None \<Rightarrow> (\<lambda>_. Undefined)
                 | Some back \<Rightarrow>
                     seq (placement_new (end' (vectors w this)) (T_move_ctor T back)) (\<lambda>_.
                     seq (std_move_backward T (ptr_plus (begin' (vectors w this)) (to_int d))
                            (ptr_plus (end' (vectors w this)) (- 1)) (end' (vectors w this))) (\<lambda>_.
                     T_move_assign_local (ptr_plus (begin' (vectors w this)) (to_int d)) temp))))
            (\<lambda>e. seq (operator_delete (end' (vectors w this))) (\<lambda>_. Raise e)))
       (\<lambda>_ w'. let w'' = set_size this (size' (vectors w' this) + 1) w' in
          Return (ptr_plus (begin' (vectors w'' this)) (to_int d)) w'') w"
  using assms by (simp add: Emplace_def Let_def)

lemma live_elems:
  assumes inv: "vec_inv w this" and buf: "buffer' (data' (vectors w this)) = Ptr b 0"
      and k: "k < size' (vectors w this)"
  shows "slot w (Ptr b k) = Some (Some (elems w this ! k))"
proof -
  from inv have b: "b < length (heap w)" and shb: "shape w ! b = Some (capacity' (data' (vectors w this)))"
    and ncap: "size' (vectors w this) \<le> capacity' (data' (vectors w this))"
    and live: "\<forall>k<size' (vectors w this). \<exists>v. slot w (Ptr b k) = Some (Some v)"
    unfolding vec_inv_view [OF buf] by simp_all
  have e0: "elems w this = map (\<lambda>k. the (the (slot w (Ptr b k)))) [0..<size' (vectors w this)]"
    using elems_view [OF buf b shb] ncap by simp
  show ?thesis using live k by (auto simp: e0)
qed

lemma Emplace_in_place:
  assumes inv: "vec_inv w this"
      and lt: "size' (vectors w this) < capacity' (data' (vectors w this))"
      and pn: "p \<le> size' (vectors w this)"
      and small: "p < 2 ^ 31"
  shows "case Emplace T this (ptr_plus (begin' (vectors w this)) (int p)) x w of
           Return r w' \<Rightarrow>
             vec_inv w' this
             \<and> elems w' this = take p (elems w this) @ x # drop p (elems w this)
             \<and> vectors w' = (vectors w)(this := (vectors w this)\<lparr>size' := Suc (size' (vectors w this))\<rparr>)
             \<and> r = ptr_plus (begin' (vectors w' this)) (int p)
             \<and> shape w' = shape w
             \<and> set (faults w') \<subseteq> set (faults w)
         | _ \<Rightarrow> True \<in> set (faults w)"
proof -
  define n where "n = size' (vectors w this)"
  define cap where "cap = capacity' (data' (vectors w this))"
  define xs where "xs = elems w this"
  define ys where "ys = take p xs @ x # drop p xs"
  from inv lt obtain b where buf: "buffer' (data' (vectors w this)) = Ptr b 0"
    by (rule vec_inv_Ptr_cases)
  have bg: "begin' (vectors w this) = Ptr b 0" and en: "end' (vectors w this) = Ptr b n"
    using buf by (simp_all add: begin'_def end'_def GetAddress_def n_def)
  have pos: "ptr_plus (begin' (vectors w this)) (int p) = Ptr b p" by (simp add: bg)
  have pd: "ptr_diff (Ptr b p) (begin' (vectors w this)) = Some (int p)"
    using ptr_diff_begin [OF inv pn] by (simp add: pos)
  have ne: "RawMemory_Capacity (data' (vectors w this)) \<noteq> size' (vectors w this)"
    using lt by (simp add: RawMemory_Capacity_def)
  have lx: "length xs = n" using length_elems [OF inv] by (simp add: xs_def n_def)
  have ly: "length ys = Suc n" using pn by (simp add: ys_def lx n_def)
  have raw: "slot w (Ptr b n) = Some None"
    using inv lt unfolding vec_inv_view [OF buf] by (simp add: n_def)
  have inner: "case (if Ptr b p = Ptr b n then placement_new (Ptr b n) (T_ctor x)
             else
               seq (T_ctor x) (\<lambda>temp.
                 case RawMemory_index (data' (vectors w this)) (size_t_minus (size' (vectors w this)) 1) of
                   None \<Rightarrow> (\<lambda>_. Undefined)
                 | Some back \<Rightarrow>
                     seq (placement_new (Ptr b n) (T_move_ctor T back)) (\<lambda>_.
                     seq (std_move_backward T (Ptr b p) (ptr_plus (Ptr b n) (- 1)) (Ptr b n)) (\<lambda>_.
                     T_move_assign_local (Ptr b p) temp)))) w of
          Return r w1 \<Rightarrow>
            (\<forall>k. slot w1 (Ptr b k) = (if k \<le> n then Some (Some (ys ! k)) else slot w (Ptr b k)))
            \<and> shape w1 = shape w \<and> vectors w1 = vectors w \<and> set (faults w1) \<subseteq> set (faults w)
        | _ \<Rightarrow> True \<in> set (faults w)"
  proof (cases "p = n")
    case True
    have d: "slot w (Ptr b n) \<noteq> None" using raw by simp
    have yk: "ys ! k = (if k = n then x else xs ! k)" if "k \<le> n" for k
      using that lx True by (simp add: ys_def nth_append)
    show ?thesis
    proof (cases "placement_new (Ptr b n) (T_ctor x) w")
      case (Return r w1)
      with step_ctor [OF d, of x] have w1: "w1 = (put (Ptr b n) (Some x) w)\<lparr>faults := faults w1\<rparr>"
        and f1: "set (faults w1) \<subseteq> set (faults w)" by simp_all
      have s1: "slot w1 (Ptr b k) = (if k = n then Some (Some x) else slot w (Ptr b k))" for k
        using d by (subst w1) (simp add: slot_put)
      have sh1: "shape w1 = shape w" by (subst w1) simp
      have v1: "vectors w1 = vectors w" by (subst w1) simp
      have "slot w1 (Ptr b k) = (if k \<le> n then Some (Some (ys ! k)) else slot w (Ptr b k))" for k
        using live_elems [OF inv buf, of k] by (auto simp: s1 yk xs_def n_def)
      then show ?thesis using Return True sh1 v1 f1 by simp
    next
      case Undefined
      with step_ctor [OF d, of x] show ?thesis by simp
    next
      case (Raise e w1)
      with step_ctor [OF d, of x] True show ?thesis by simp
    qed
  next
    case False
    then have pn': "p < n" using pn by (simp add: n_def)
    have live: "\<And>k. k < n \<Longrightarrow> slot w (Ptr b k) = Some (Some (xs ! k))"
      using live_elems [OF inv buf] by (simp add: xs_def n_def)
    have pn'': "p < size' (vectors w this)" using pn' by (simp add: n_def)
    have ie: "seq (T_ctor x) (\<lambda>temp.
                 case RawMemory_index (data' (vectors w this)) (size_t_minus (size' (vectors w this)) 1) of
                   None \<Rightarrow> (\<lambda>_. Undefined)
                 | Some back \<Rightarrow>
                     seq (placement_new (Ptr b n) (T_move_ctor T back)) (\<lambda>_.
                     seq (std_move_backward T (Ptr b p) (ptr_plus (Ptr b n) (- 1)) (Ptr b n)) (\<lambda>_.
                     T_move_assign_local (Ptr b p) temp)))
          = seq (T_ctor x) (\<lambda>temp.
                seq (placement_new (Ptr b n) (T_move_ctor T (Ptr b (n - 1)))) (\<lambda>_.
                seq (move_backward_loop T (n - 1 - p) (Ptr b (n - 1)) (Ptr b n)) (\<lambda>_.
                T_move_assign_local (Ptr b p) temp)))"
      using interior_eq [OF buf pn'' lt, of x T] unfolding en pos n_def [symmetric] .
    have "case seq (T_ctor x) (\<lambda>temp.
                seq (placement_new (Ptr b n) (T_move_ctor T (Ptr b (n - 1)))) (\<lambda>_.
                seq (move_backward_loop T (n - 1 - p) (Ptr b (n - 1)) (Ptr b n)) (\<lambda>_.
                T_move_assign_local (Ptr b p) temp))) w of
          Return r w1 \<Rightarrow>
            (\<forall>k. slot w1 (Ptr b k) = (if k \<le> n then Some (Some (ys ! k)) else slot w (Ptr b k)))
            \<and> shape w1 = shape w \<and> vectors w1 = vectors w \<and> set (faults w1) \<subseteq> set (faults w)
        | _ \<Rightarrow> True \<in> set (faults w)"
      by (rule weaken_spec [OF shift_spec [OF live raw pn' lx, of x T]]) (simp_all add: ys_def)
    then show ?thesis using False unfolding ie by simp
  qed
  have E: "Emplace T this (Ptr b p) x w =
     seq (catch_all
            (if Ptr b p = Ptr b n then placement_new (Ptr b n) (T_ctor x)
             else
               seq (T_ctor x) (\<lambda>temp.
                 case RawMemory_index (data' (vectors w this)) (size_t_minus (size' (vectors w this)) 1) of
                   None \<Rightarrow> (\<lambda>_. Undefined)
                 | Some back \<Rightarrow>
                     seq (placement_new (Ptr b n) (T_move_ctor T back)) (\<lambda>_.
                     seq (std_move_backward T (Ptr b p) (ptr_plus (Ptr b n) (- 1)) (Ptr b n)) (\<lambda>_.
                     T_move_assign_local (Ptr b p) temp))))
            (\<lambda>e. seq (operator_delete (Ptr b n)) (\<lambda>_. Raise e)))
       (\<lambda>_ w'. let w'' = set_size this (size' (vectors w' this) + 1) w' in
          Return (ptr_plus (begin' (vectors w'' this)) (int p)) w'') w"
    using Emplace_nogrowth [OF ne pd, of T x] unfolding to_int_small [OF small] en pos .
  have caught: "case catch_all
            (if Ptr b p = Ptr b n then placement_new (Ptr b n) (T_ctor x)
             else
               seq (T_ctor x) (\<lambda>temp.
                 case RawMemory_index (data' (vectors w this)) (size_t_minus (size' (vectors w this)) 1) of
                   None \<Rightarrow> (\<lambda>_. Undefined)
                 | Some back \<Rightarrow>
                     seq (placement_new (Ptr b n) (T_move_ctor T back)) (\<lambda>_.
                     seq (std_move_backward T (Ptr b p) (ptr_plus (Ptr b n) (- 1)) (Ptr b n)) (\<lambda>_.
                     T_move_assign_local (Ptr b p) temp))))
            (\<lambda>e. seq (operator_delete (Ptr b n)) (\<lambda>_. Raise e)) w of
          Return r w1 \<Rightarrow>
            (\<forall>k. slot w1 (Ptr b k) = (if k \<le> n then Some (Some (ys ! k)) else slot w (Ptr b k)))
            \<and> shape w1 = shape w \<and> vectors w1 = vectors w \<and> set (faults w1) \<subseteq> set (faults w)
        | _ \<Rightarrow> True \<in> set (faults w)"
    using inner by (rule catch_spec) (rule rethrow_not_Return)
  show ?thesis
    unfolding pos E using caught
  proof (rule seq_spec)
    fix r and w1 :: "'a world"
    assume "(\<forall>k. slot w1 (Ptr b k) = (if k \<le> n then Some (Some (ys ! k)) else slot w (Ptr b k)))
            \<and> shape w1 = shape w \<and> vectors w1 = vectors w \<and> set (faults w1) \<subseteq> set (faults w)"
    then have s1: "\<And>k. slot w1 (Ptr b k) = (if k \<le> size' (vectors w this) then Some (Some (ys ! k)) else slot w (Ptr b k))"
      and sh1: "shape w1 = shape w" and v1: "vectors w1 = vectors w" and f1: "set (faults w1) \<subseteq> set (faults w)"
      by (simp_all add: n_def)
    define w' where "w' = set_size this (size' (vectors w1 this) + 1) w1"
    have ly': "length ys = Suc (size' (vectors w this))" using ly by (simp add: n_def)
    have a: "vec_inv w' this \<and> elems w' this = ys"
      using inv lt buf ly' v1 sh1 s1 w'_def by (rule in_place_post)
    have vw: "vectors w' = (vectors w)(this := (vectors w this)\<lparr>size' := Suc (size' (vectors w this))\<rparr>)"
      by (simp add: w'_def v1)
    have shw: "shape w' = shape w" by (simp add: w'_def sh1)
    have fw: "set (faults w') \<subseteq> set (faults w)" using f1 by (simp add: w'_def)
    have "vec_inv w' this
             \<and> elems w' this = take p (elems w this) @ x # drop p (elems w this)
             \<and> vectors w' = (vectors w)(this := (vectors w this)\<lparr>size' := Suc (size' (vectors w this))\<rparr>)
             \<and> shape w' = shape w
             \<and> set (faults w') \<subseteq> set (faults w)"
      using a vw shw fw by (simp add: ys_def xs_def)
    then show "case (let w'' = set_size this (size' (vectors w1 this) + 1) w1 in
          Return (ptr_plus (begin' (vectors w'' this)) (int p)) w'') of
           Return r w' \<Rightarrow>
             vec_inv w' this
             \<and> elems w' this = take p (elems w this) @ x # drop p (elems w this)
             \<and> vectors w' = (vectors w)(this := (vectors w this)\<lparr>size' := Suc (size' (vectors w this))\<rparr>)
             \<and> r = ptr_plus (begin' (vectors w' this)) (int p)
             \<and> shape w' = shape w
             \<and> set (faults w') \<subseteq> set (faults w)
         | _ \<Rightarrow> True \<in> set (faults w)"
      unfolding Let_def w'_def [symmetric] result.case by blast
  qed
qed

lemma vec_inv_nonempty:
  assumes "vec_inv w this" and "0 < size' (vectors w this)"
  obtains b where "buffer' (data' (vectors w this)) = Ptr b 0"
proof (cases "buffer' (data' (vectors w this))")
  case Null
  with assms show ?thesis by (simp add: vec_inv_Null)
next
  case (Ptr b i)
  with assms(1) have "i = 0" by (simp add: vec_inv_view [OF Ptr])
  with Ptr that show ?thesis by simp
next
  case Wild
  with assms(1) show ?thesis using vec_inv_not_Wild [of w this] by simp
qed

lemma Emplace_grows:
  assumes inv: "vec_inv w this"
      and full: "capacity' (data' (vectors w this)) = size' (vectors w this)"
      and pn: "p \<le> size' (vectors w this)"
      and small: "p < 2 ^ 31"
      and al: "allocatable T (if size' (vectors w this) = 0 then 1 else size' (vectors w this) * 2)"
  shows "case Emplace T this (ptr_plus (begin' (vectors w this)) (int p)) x w of
           Return r w' \<Rightarrow>
             vec_inv w' this
             \<and> elems w' this = take p (elems w this) @ x # drop p (elems w this)
             \<and> size' (vectors w' this) = Suc (size' (vectors w this))
             \<and> data' (vectors w' this) =
                  \<lparr>buffer' = Ptr (length (heap w)) 0,
                   capacity' = (if size' (vectors w this) = 0 then 1 else size' (vectors w this) * 2)\<rparr>
             \<and> r = ptr_plus (begin' (vectors w' this)) (int p)
             \<and> length (heap w') = Suc (length (heap w))
             \<and> set (faults w') \<subseteq> set (faults w)
         | _ \<Rightarrow> True \<in> set (faults w)"
proof -
  have full': "RawMemory_Capacity (data' (vectors w this)) = size' (vectors w this)"
    using full by (simp add: RawMemory_Capacity_def)
  have E: "Emplace T this (ptr_plus (begin' (vectors w this)) (int p)) x w =
     seq (growth T (vectors w this) this (int p) x)
       (\<lambda>_ w'. let w'' = set_size this (size' (vectors w' this) + 1) w' in
          Return (ptr_plus (begin' (vectors w'' this)) (int p)) w'') w"
    using Emplace_growth [OF full' ptr_diff_begin [OF inv pn], where T=T and x=x] unfolding to_int_small [OF small] .
  show ?thesis
    unfolding E using growth_then_size [OF inv full pn al, where x=x]
    by (rule seq_spec) (auto simp: Let_def)
qed

lemma Erase_spec:
  assumes inv: "vec_inv w this"
      and pn: "p < size' (vectors w this)"
      and small: "p < 2 ^ 31"
  shows "case Erase T this (ptr_plus (begin' (vectors w this)) (int p)) w of
           Return r w' \<Rightarrow>
             vec_inv w' this
             \<and> elems w' this = take p (elems w this) @ drop (Suc p) (elems w this)
             \<and> vectors w' = (vectors w)(this := (vectors w this)\<lparr>size' := size' (vectors w this) - 1\<rparr>)
             \<and> r = ptr_plus (begin' (vectors w' this)) (int p)
             \<and> shape w' = shape w
             \<and> set (faults w') \<subseteq> set (faults w)
         | _ \<Rightarrow> True \<in> set (faults w)"
proof -
  define n where "n = size' (vectors w this)"
  define cap where "cap = capacity' (data' (vectors w this))"
  define xs where "xs = elems w this"
  define ys where "ys = take p xs @ drop (Suc p) xs"
  have n0: "0 < size' (vectors w this)" using pn by simp
  from inv n0 obtain b where buf: "buffer' (data' (vectors w this)) = Ptr b 0"
    by (rule vec_inv_nonempty)
  from inv have b: "b < length (heap w)" and shb: "shape w ! b = Some cap" and ncap: "n \<le> cap"
    and raw: "\<forall>k. n \<le> k \<and> k < cap \<longrightarrow> slot w (Ptr b k) = Some None"
    unfolding vec_inv_view [OF buf] by (simp_all add: cap_def n_def)
  have pn': "p < n" using pn by (simp add: n_def)
  have bg: "begin' (vectors w this) = Ptr b 0" and en: "end' (vectors w this) = Ptr b n"
    using buf by (simp_all add: begin'_def end'_def GetAddress_def n_def)
  have pos: "ptr_plus (begin' (vectors w this)) (int p) = Ptr b p" by (simp add: bg)
  have pd: "ptr_diff (Ptr b p) (begin' (vectors w this)) = Some (int p)"
    using ptr_diff_begin [OF inv less_imp_le [OF pn]] by (simp add: pos)
  have lx: "length xs = n" using length_elems [OF inv] by (simp add: xs_def n_def)
  have ly: "length ys = n - 1" using pn' by (simp add: ys_def lx)
  have live: "\<And>k. k < n \<Longrightarrow> slot w (Ptr b k) = Some (Some (xs ! k))"
    using live_elems [OF inv buf] by (simp add: xs_def n_def)
  have m1: "ptr_plus (Ptr b n) (- 1) = Ptr b (n - 1)" using pn' by (simp add: ptr_plus_m1)
  have "int n - int (Suc p) \<ge> 0" using pn' by simp
  moreover have "nat (int n - int (Suc p)) = n - Suc p" by simp
  ultimately have r: "range_length (Ptr b (Suc p)) (Ptr b n) = Some (n - Suc p)"
    unfolding range_length_def ptr_diff_def by simp
  have sm: "std_move T (Ptr b (Suc p)) (Ptr b n) (Ptr b p) = move_loop T (n - Suc p) (Ptr b (Suc p)) (Ptr b p)"
    unfolding std_move_def r by simp
  have E: "Erase T this (Ptr b p) w =
      seq (move_loop T (n - Suc p) (Ptr b (Suc p)) (Ptr b p)) (\<lambda>_.
      seq (destroy_at (Ptr b (n - 1))) (\<lambda>_ w'.
        let w'' = set_size this (size_t_minus (size' (vectors w' this)) 1) w' in
        Return (ptr_plus (begin' (vectors w'' this)) (int p)) w'')) w"
    unfolding Erase_def Let_def pd option.case to_int_small [OF small] pos en ptr_plus_1 m1 sm by (rule refl)
  have l0: "\<forall>k\<le>n - Suc p. \<exists>v. slot w (Ptr b (p + k)) = Some (Some v)"
  proof (intro allI impI)
    fix k assume "k \<le> n - Suc p"
    then have "p + k < n" using pn' by simp
    then show "\<exists>v. slot w (Ptr b (p + k)) = Some (Some v)" using live by simp
  qed
  have pm: "p + (n - Suc p) = n - 1" using pn' by simp
  show ?thesis
    unfolding pos E using move_loop_spec [OF l0, of T, unfolded pm]
  proof (rule seq_spec)
    fix r1 and w1 :: "'a world"
    assume "(\<forall>c k. slot w1 (Ptr c k) =
                (if c = b \<and> p \<le> k \<and> k < n - 1 then slot w (Ptr b (Suc k))
                 else if c = b \<and> k = n - 1 \<and> 0 < n - Suc p then map_option (map_option (moved_from T)) (slot w (Ptr b k))
                 else slot w (Ptr c k)))
             \<and> shape w1 = shape w \<and> vectors w1 = vectors w \<and> set (faults w1) \<subseteq> set (faults w)"
    then have s1: "\<And>c k. slot w1 (Ptr c k) =
                (if c = b \<and> p \<le> k \<and> k < n - 1 then slot w (Ptr b (Suc k))
                 else if c = b \<and> k = n - 1 \<and> 0 < n - Suc p then map_option (map_option (moved_from T)) (slot w (Ptr b k))
                 else slot w (Ptr c k))"
      and sh1: "shape w1 = shape w" and v1: "vectors w1 = vectors w" and f1: "set (faults w1) \<subseteq> set (faults w)"
      by simp_all
    have "\<exists>u. slot w1 (Ptr b (n - 1)) = Some (Some u)"
      using live [of "n - 1"] pn' by (simp add: s1)
    then obtain u where u: "slot w1 (Ptr b (n - 1)) = Some (Some u)" ..
    define w2 where "w2 = put (Ptr b (n - 1)) None w1"
    have d: "destroy_at (Ptr b (n - 1)) w1 = Return () w2"
      using destroy_at_live [OF u] by (simp add: w2_def)
    have s2: "slot w2 (Ptr b k) = (if k = n - 1 then Some None else slot w1 (Ptr b k))" for k
      using u by (simp add: w2_def slot_put)
    have sh2: "shape w2 = shape w" by (simp add: w2_def sh1)
    have v2: "vectors w2 = vectors w" by (simp add: w2_def v1)
    have f2: "set (faults w2) \<subseteq> set (faults w)" using f1 by (simp add: w2_def)
    define w' where "w' = set_size this (size_t_minus (size' (vectors w2 this)) 1) w2"
    have sz: "size_t_minus (size' (vectors w2 this)) 1 = n - 1"
      using pn' by (simp add: v2 size_t_minus_def n_def)
    have vw: "vectors w' = (vectors w)(this := (vectors w this)\<lparr>size' := n - 1\<rparr>)"
      unfolding w'_def sz by (simp add: v2)
    have shw: "shape w' = shape w" by (simp add: w'_def sh2)
    have lw: "length (heap w') = length (heap w)" using shw by (metis length_shape)
    have fw: "set (faults w') \<subseteq> set (faults w)" using f2 by (simp add: w'_def)
    have sw: "slot w' (Ptr b k) = (if k = n - 1 then Some None else slot w1 (Ptr b k))" for k
      by (simp add: w'_def s2)
    have a: "vec_inv w' this \<and> elems w' this = ys"
    proof (rule vec_inv_elems_intro [where b=b])
      show "buffer' (data' (vectors w' this)) = Ptr b 0" using buf by (simp add: vw)
      show "b < length (heap w')" using b lw by simp
      show "shape w' ! b = Some (capacity' (data' (vectors w' this)))" using shb by (simp add: vw shw cap_def)
      show "size' (vectors w' this) = length ys" by (simp add: vw ly)
      show "length ys \<le> capacity' (data' (vectors w' this))" using ncap by (simp add: vw ly cap_def)
      show "\<forall>k. slot w' (Ptr b k) =
              (if k < length ys then Some (Some (ys ! k))
               else if k < capacity' (data' (vectors w' this)) then Some None else None)"
      proof
        fix k
        have cw: "capacity' (data' (vectors w' this)) = cap" by (simp add: vw cap_def)
        consider "k < p" | "p \<le> k" "k < n - 1" | "k = n - 1" | "n \<le> k" "k < cap" | "cap \<le> k" "n \<le> k"
          using ncap by linarith
        then show "slot w' (Ptr b k) =
              (if k < length ys then Some (Some (ys ! k))
               else if k < capacity' (data' (vectors w' this)) then Some None else None)"
          unfolding cw ly
        proof cases
          case 1
          then have "k < n - 1" "k < n" "k \<noteq> n - 1" using pn' by simp_all
          moreover have "ys ! k = xs ! k" using 1 lx pn' by (simp add: ys_def nth_append)
          ultimately show "slot w' (Ptr b k) = (if k < n - 1 then Some (Some (ys ! k)) else if k < cap then Some None else None)"
            using 1 live [of k] by (simp add: sw s1)
        next
          case 2
          then have "Suc k < n" "k \<noteq> n - 1" by simp_all
          moreover have "ys ! k = xs ! Suc k" using 2 lx pn' by (simp add: ys_def nth_append)
          ultimately show "slot w' (Ptr b k) = (if k < n - 1 then Some (Some (ys ! k)) else if k < cap then Some None else None)"
            using 2 live [of "Suc k"] by (simp add: sw s1)
        next
          case 3
          then show "slot w' (Ptr b k) = (if k < n - 1 then Some (Some (ys ! k)) else if k < cap then Some None else None)"
            using pn' ncap by (simp add: sw)
        next
          case 4
          then have "\<not> k < n - 1" "k \<noteq> n - 1" "\<not> (p \<le> k \<and> k < n - 1)" using pn' by simp_all
          then show "slot w' (Ptr b k) = (if k < n - 1 then Some (Some (ys ! k)) else if k < cap then Some None else None)"
            using 4 raw by (simp add: sw s1)
        next
          case 5
          then have "\<not> k < n - 1" "k \<noteq> n - 1" "\<not> (p \<le> k \<and> k < n - 1)" using pn' by simp_all
          moreover have "slot w (Ptr b k) = None"
            using 5 b shb by (auto simp: shape_Some slot_in_block)
          ultimately show "slot w' (Ptr b k) = (if k < n - 1 then Some (Some (ys ! k)) else if k < cap then Some None else None)"
            using 5 by (simp add: sw s1)
        qed
      qed
    qed
    have "vec_inv w' this
             \<and> elems w' this = take p (elems w this) @ drop (Suc p) (elems w this)
             \<and> vectors w' = (vectors w)(this := (vectors w this)\<lparr>size' := size' (vectors w this) - 1\<rparr>)
             \<and> shape w' = shape w
             \<and> set (faults w') \<subseteq> set (faults w)"
      using a vw shw fw by (simp add: ys_def xs_def n_def)
    then show "case seq (destroy_at (Ptr b (n - 1))) (\<lambda>_ w'.
        let w'' = set_size this (size_t_minus (size' (vectors w' this)) 1) w' in
        Return (ptr_plus (begin' (vectors w'' this)) (int p)) w'') w1 of
           Return r w' \<Rightarrow>
             vec_inv w' this
             \<and> elems w' this = take p (elems w this) @ drop (Suc p) (elems w this)
             \<and> vectors w' = (vectors w)(this := (vectors w this)\<lparr>size' := size' (vectors w this) - 1\<rparr>)
             \<and> r = ptr_plus (begin' (vectors w' this)) (int p)
             \<and> shape w' = shape w
             \<and> set (faults w') \<subseteq> set (faults w)
         | _ \<Rightarrow> True \<in> set (faults w)"
      unfolding seq_def d result.case Let_def w'_def [symmetric] by blast
  qed
qed

lemma insert_nth_at: "p \<le> length xs \<Longrightarrow> (take p xs @ x # drop p xs) ! p = x"
  by (simp add: nth_append)

lemma erase_nth_at: "Suc p < length xs \<Longrightarrow> (take p xs @ drop (Suc p) xs) ! p = xs ! Suc p"
  by (simp add: nth_append)

lemma vec_inv_zeros: "n \<le> cap \<Longrightarrow> vec_inv (world_zeros n cap) 0"
  by (simp add: world_zeros_def vec_inv_def list_all_iff)

lemma kept_refl [simp]: "kept w w"
  by (simp add: kept_def)

lemma kept_trans: "kept w w1 \<Longrightarrow> kept w1 w2 \<Longrightarrow> kept w w2"
  by (simp add: kept_def)

lemma keepsD: "keeps m \<Longrightarrow> m w = Return r w' \<Longrightarrow> kept w w'"
  and keeps_RaiseD: "keeps m \<Longrightarrow> m w = Raise e w' \<Longrightarrow> kept w w'"
  unfolding keeps_def by (erule allE [of _ w], simp)+

lemma keepsI:
  assumes "\<And>w r w'. m w = Return r w' \<Longrightarrow> kept w w'" and "\<And>w e w'. m w = Raise e w' \<Longrightarrow> kept w w'"
  shows "keeps m"
  unfolding keeps_def using assms by (auto split: result.splits)

lemma seq_RaiseE:
  assumes "seq m f w = Raise e w'"
  obtains "m w = Raise e w'" | r1 w1 where "m w = Return r1 w1" and "f r1 w1 = Raise e w'"
  using assms by (cases "m w") (simp_all add: seq_def)

lemma catch_RaiseE:
  assumes "catch_all m h w = Raise e w'"
  obtains e1 w1 where "m w = Raise e1 w1" and "h e1 w1 = Raise e w'"
  using assms by (cases "m w") (simp_all add: catch_all_def)

lemma seq_ReturnE:
  assumes "seq m f w = Return r w'"
  obtains r1 w1 where "m w = Return r1 w1" and "f r1 w1 = Return r w'"
  using assms by (cases "m w") (simp_all add: seq_def)

lemma catch_ReturnE:
  assumes "catch_all m h w = Return r w'"
  obtains "m w = Return r w'" | e w1 where "m w = Raise e w1" and "h e w1 = Return r w'"
  using assms by (cases "m w") (simp_all add: catch_all_def)

lemma keeps_seq:
  assumes "keeps m" and "\<And>r. keeps (f r)"
  shows "keeps (seq m f)"
proof (rule keepsI)
  fix w r w' assume "seq m f w = Return r w'"
  then obtain r1 w1 where "m w = Return r1 w1" and "f r1 w1 = Return r w'" by (rule seq_ReturnE)
  then show "kept w w'" using assms by (blast intro: kept_trans keepsD)
next
  fix w e w' assume "seq m f w = Raise e w'"
  then show "kept w w'"
  proof (rule seq_RaiseE)
    assume "m w = Raise e w'"
    then show ?thesis using assms(1) by (rule keeps_RaiseD [rotated])
  next
    fix r1 w1 assume "m w = Return r1 w1" and "f r1 w1 = Raise e w'"
    then show ?thesis using assms by (blast intro: kept_trans keepsD keeps_RaiseD)
  qed
qed

lemma keeps_catch:
  assumes "keeps m" and "\<And>e. keeps (h e)"
  shows "keeps (catch_all m h)"
proof (rule keepsI)
  fix w r w' assume "catch_all m h w = Return r w'"
  then show "kept w w'"
  proof (rule catch_ReturnE)
    assume "m w = Return r w'"
    then show ?thesis using assms(1) by (rule keepsD [rotated])
  next
    fix e w1 assume "m w = Raise e w1" and "h e w1 = Return r w'"
    then show ?thesis using assms by (blast intro: kept_trans keepsD keeps_RaiseD)
  qed
next
  fix w e w' assume "catch_all m h w = Raise e w'"
  then obtain e1 w1 where "m w = Raise e1 w1" and "h e1 w1 = Raise e w'" by (rule catch_RaiseE)
  then show "kept w w'" using assms by (blast intro: kept_trans keeps_RaiseD)
qed

lemma keeps_Undefined [simp]: "keeps (\<lambda>_. Undefined)"
  by (simp add: keeps_def)

lemma keeps_Return [simp]: "keeps (Return r)"
  by (simp add: keeps_def)

lemma keeps_Raise [simp]: "keeps (Raise e)"
  by (simp add: keeps_def)

lemma keeps_rethrow: "keeps m \<Longrightarrow> keeps (seq m (\<lambda>_. Raise e))"
  by (rule keeps_seq) simp_all



lemma kept_put [simp]: "kept w (put p s w)"
  by (cases p) (simp_all add: kept_def put_def)

lemma keeps_may_throw [simp]: "keeps (may_throw e)"
  by (rule keepsI) (auto simp: may_throw_def kept_def split: list.splits if_splits)

lemma keeps_T_ctor [simp]: "keeps (T_ctor x)"
  unfolding T_ctor_def by (intro keeps_seq) simp_all

lemma keeps_T_copy_ctor [simp]: "keeps (T_copy_ctor s)"
  by (rule keepsI) (auto simp: T_copy_ctor_def seq_def may_throw_def kept_def split: option.splits list.splits if_splits)

lemma keeps_T_move_ctor [simp]: "keeps (T_move_ctor T s)"
  by (rule keepsI) (auto simp: T_move_ctor_def seq_def may_throw_def kept_def put_def
      split: option.splits list.splits if_splits ptr.splits)

lemma keeps_construct_at [simp]: "keeps (construct_at p v)"
  by (rule keepsI) (auto simp: construct_at_def split: option.splits)

lemma keeps_destroy_at [simp]: "keeps (destroy_at p)"
  by (rule keepsI) (auto simp: destroy_at_def split: option.splits)

lemma keeps_placement_new: "keeps ctor \<Longrightarrow> keeps (placement_new p ctor)"
  unfolding placement_new_def by (intro keeps_seq) simp_all

lemma keeps_T_move_assign [simp]: "keeps (T_move_assign T d s)"
  by (rule keepsI) (auto simp: T_move_assign_def seq_def may_throw_def kept_def put_def
      split: option.splits list.splits if_splits ptr.splits)

lemma keeps_T_move_assign_local [simp]: "keeps (T_move_assign_local d v)"
  by (rule keepsI) (auto simp: T_move_assign_local_def seq_def may_throw_def kept_def put_def
      split: option.splits list.splits if_splits ptr.splits)

lemma keeps_operator_delete [simp]: "keeps (operator_delete p)"
  by (rule keepsI) (auto simp: operator_delete_def kept_def split: ptr.splits if_splits)


lemma keeps_uninitialized_move_n [simp]: "keeps (uninitialized_move_n T s n d)"
proof (induction n arbitrary: s d)
  case 0
  show ?case by simp
next
  case (Suc n)
  show ?case
    unfolding uninitialized_move_n.simps
    by (intro keeps_seq keeps_placement_new keeps_catch keeps_rethrow Suc) simp_all
qed

lemma keeps_uninitialized_copy_n [simp]: "keeps (uninitialized_copy_n s n d)"
proof (induction n arbitrary: s d)
  case 0
  show ?case by simp
next
  case (Suc n)
  show ?case
    unfolding uninitialized_copy_n.simps
    by (intro keeps_seq keeps_placement_new keeps_catch keeps_rethrow Suc) simp_all
qed

lemma keeps_destroy_n [simp]: "keeps (destroy_n p n)"
proof (induction n arbitrary: p)
  case 0
  show ?case by simp
next
  case (Suc n)
  show ?case unfolding destroy_n.simps by (intro keeps_seq Suc) simp
qed

lemma keeps_move_backward_loop [simp]: "keeps (move_backward_loop T n l d)"
proof (induction n arbitrary: l d)
  case 0
  show ?case by simp
next
  case (Suc n)
  show ?case unfolding move_backward_loop.simps by (intro keeps_seq Suc) simp
qed

lemma keeps_std_move_backward [simp]: "keeps (std_move_backward T f l d)"
  by (simp add: std_move_backward_def split: option.splits)














lemma only_block_refl [simp]: "only_block b w w"
  by (simp add: only_block_def)

lemma only_block_trans: "only_block b w w1 \<Longrightarrow> only_block b w1 w2 \<Longrightarrow> only_block b w w2"
  by (simp add: only_block_def)

lemma frameD: "frame b m \<Longrightarrow> m w = Return r w' \<Longrightarrow> only_block b w w'"
  and frame_RaiseD: "frame b m \<Longrightarrow> m w = Raise e w' \<Longrightarrow> only_block b w w'"
  unfolding frame_def by (erule allE [of _ w], simp)+

lemma frameI:
  assumes "\<And>w r w'. m w = Return r w' \<Longrightarrow> only_block b w w'"
      and "\<And>w e w'. m w = Raise e w' \<Longrightarrow> only_block b w w'"
  shows "frame b m"
  unfolding frame_def using assms by (auto split: result.splits)

lemma no_raiseD: "no_raise m \<Longrightarrow> m w \<noteq> Raise e w'"
  unfolding no_raise_def by (erule allE [of _ w]) (auto split: result.splits)

lemma no_raiseI: "(\<And>w e w'. m w \<noteq> Raise e w') \<Longrightarrow> no_raise m"
  unfolding no_raise_def by (auto split: result.splits)


lemma raise_frameI: "(\<And>w e w'. m w = Raise e w' \<Longrightarrow> only_block b w w') \<Longrightarrow> raise_frame b m"
  unfolding raise_frame_def by (auto split: result.splits)

lemma frame_seq:
  assumes "frame b m" and "\<And>r. frame b (f r)"
  shows "frame b (seq m f)"
proof (rule frameI)
  fix w r w' assume "seq m f w = Return r w'"
  then obtain r1 w1 where "m w = Return r1 w1" and "f r1 w1 = Return r w'" by (rule seq_ReturnE)
  then show "only_block b w w'" using assms by (blast intro: only_block_trans frameD)
next
  fix w e w' assume "seq m f w = Raise e w'"
  then show "only_block b w w'"
  proof (rule seq_RaiseE)
    assume "m w = Raise e w'"
    then show ?thesis using assms(1) by (rule frame_RaiseD [rotated])
  next
    fix r1 w1 assume "m w = Return r1 w1" and "f r1 w1 = Raise e w'"
    then show ?thesis using assms by (blast intro: only_block_trans frameD frame_RaiseD)
  qed
qed


lemma frame_Return [simp]: "frame b (Return r)"
  and frame_Raise [simp]: "frame b (Raise e)"
  and frame_Undefined [simp]: "frame b (\<lambda>_. Undefined)"
  by (simp_all add: frame_def)


lemma no_raise_seq:
  assumes "no_raise m" and "\<And>r. no_raise (f r)"
  shows "no_raise (seq m f)"
proof (rule no_raiseI)
  fix w e w'
  show "seq m f w \<noteq> Raise e w'"
  proof
    assume "seq m f w = Raise e w'"
    then show False
      by (rule seq_RaiseE) (use assms in \<open>auto dest: no_raiseD\<close>)
  qed
qed


lemma no_raise_Return [simp]: "no_raise (Return r)"
  and no_raise_Undefined [simp]: "no_raise (\<lambda>_. Undefined)"
  by (simp_all add: no_raise_def)

lemma raise_frame_of_frame: "frame b m \<Longrightarrow> raise_frame b m"
  by (rule raise_frameI) (rule frame_RaiseD)




lemma in_block_Ptr [simp]: "in_block b (Ptr b i)"
  by (simp add: in_block_def)


lemma only_block_faults [simp]: "only_block b w (w\<lparr>faults := f\<rparr>)"
  by (simp add: only_block_def)

lemma frame_may_throw [simp]: "frame b (may_throw e)"
  by (rule frameI) (auto simp: may_throw_def split: list.splits if_splits)

lemma frame_T_ctor [simp]: "frame b (T_ctor x)"
  unfolding T_ctor_def by (intro frame_seq) simp_all

lemma frame_T_copy_ctor [simp]: "frame b (T_copy_ctor s)"
  by (rule frameI)
    (auto simp: T_copy_ctor_def seq_def may_throw_def only_block_def split: option.splits list.splits if_splits)






lemma no_raise_construct_at [simp]: "no_raise (construct_at p v)"
  by (rule no_raiseI) (simp add: construct_at_def split: option.splits)

lemma no_raise_destroy_at [simp]: "no_raise (destroy_at p)"
  by (rule no_raiseI) (simp add: destroy_at_def split: option.splits)




lemma no_raise_destroy_n [simp]: "no_raise (destroy_n p n)"
proof (induction n arbitrary: p)
  case 0
  show ?case by simp
next
  case (Suc n)
  show ?case unfolding destroy_n.simps by (intro no_raise_seq Suc) simp
qed

lemma no_raise_data_Swap [simp]: "no_raise (data_Swap this m)"
  by (rule no_raiseI) (simp add: data_Swap_eq)






section \<open>Evaluating the code\<close>

lemmas example_defs = world123_def world1923_def world_zeros_def T_int_def T_move_only_def T_copyable_def
  Vector_default_def RawMemory_default_def

lemmas run_defs = seq_def catch_all_def may_throw_def ptr_plus_def ptr_diff_def to_int_def size_t_minus_def
  size_t_minus_int_def size_t_times_def slot_def put_def construct_at_def destroy_at_def operator_new_def operator_delete_def
  T_ctor_def T_value_init_def T_copy_ctor_def T_move_ctor_def T_copy_assign_def T_move_assign_def
  T_move_assign_local_def placement_new_def range_length_def std_copy_def std_move_def std_move_backward_def
  Allocate_def Deallocate_def RawMemory_ctor_def RawMemory_dtor_def GetAddress_def RawMemory_Capacity_def
  RawMemory_index_def RawMemory_Swap_def set_data_def set_size_def RawMemory_move_assign_def
  Size_def Capacity_def begin'_def end'_def data_Swap_def vec_inv_def slots_def elems_def

section \<open>Assignment of whole vectors\<close>

text \<open>
  C5. Move assignment of the vector at \<open>s\<close> to a different vector at \<open>d\<close> returns (no
  statement of it can throw); afterwards \<open>d\<close> has the buffer, the capacity, the size and
  so the elements that \<open>s\<close> had, and \<open>s\<close> has no buffer, capacity \<open>0\<close> and size \<open>0\<close>.
  The heap is untouched.
\<close>

theorem move_assign_transfers:
  assumes "d \<noteq> s"
  shows "\<exists>w'. Vector_move_assign d s w = Return () w' \<and>
     buffer' (data' (vectors w' d)) = buffer' (data' (vectors w s)) \<and>
     Capacity d w' = Capacity s w \<and> Size d w' = Size s w \<and> elems w' d = elems w s \<and>
     buffer' (data' (vectors w' s)) = Null \<and> Capacity s w' = 0 \<and> Size s w' = 0 \<and> elems w' s = [] \<and>
     heap w' = heap w"
  using assms
  by (simp add: Vector_move_assign_def RawMemory_move_assign_def set_size_def set_data_def Capacity_def Size_def
      elems_def slots_def RawMemory_Capacity_def Let_def split: ptr.splits)

theorem move_assign_transfers_witness:
  "(1::nat) \<noteq> 0 \<and>
   (\<exists>w'. Vector_move_assign 1 0 (world123 3 []) = Return () w' \<and>
      buffer' (data' (vectors w' 1)) = Ptr 0 0 \<and> Capacity 1 w' = 3 \<and> Size 1 w' = 3 \<and>
      elems w' 1 = [1, 2, 3] \<and> Size 0 w' = 0)"
  using move_assign_transfers [of 1 0 "world123 3 []"]
  by (auto simp: example_defs Capacity_def Size_def elems_def slots_def RawMemory_Capacity_def)

text \<open>
  C10. Move assignment of a vector to itself returns with the buffer and the capacity it
  had and with size \<open>0\<close>: the heap is untouched, so the elements are still in the
  buffer, and the vector has no element any more.
\<close>

theorem self_move_assign_loses_elements:
  "\<exists>w'. Vector_move_assign v v w = Return () w' \<and>
     buffer' (data' (vectors w' v)) = buffer' (data' (vectors w v)) \<and>
     Capacity v w' = Capacity v w \<and> Size v w' = 0 \<and> heap w' = heap w \<and> elems w' v = []"
  by (simp add: Vector_move_assign_def RawMemory_move_assign_def set_size_def Capacity_def Size_def elems_def)

text \<open>C8. Copy assignment of a vector to itself returns and changes nothing at all.\<close>

theorem self_copy_assign_noop: "Vector_copy_assign T c c w = Return () w"
  by (simp add: Vector_copy_assign_def)

section \<open>The invariant\<close>

text \<open>
  C9. The invariant does not survive every operation. The vector \<open>[1, 2, 3]\<close> is well
  formed; after its move assignment to itself its size is \<open>0\<close> and the slots \<open>0, 1, 2\<close>
  of its buffer still hold live elements.
\<close>

theorem self_move_assign_breaks_invariant:
  "vec_inv (world123 3 []) 0 \<and>
   (case Vector_move_assign 0 0 (world123 3 []) of
      Return r w' \<Rightarrow> \<not> vec_inv w' 0 \<and> Size 0 w' = 0 \<and> slots w' 0 = [Some 1, Some 2, Some 3]
    | _ \<Rightarrow> False)"
  by (simp add: Vector_move_assign_def example_defs run_defs)

section \<open>Insertion without growth when a step fails\<close>

text \<open>
  C1. On the vector \<open>[1, 2, 3]\<close> of capacity \<open>4\<close>, \<^verbatim>\<open>Emplace\<close> at position \<open>1\<close> has
  undefined behaviour when the construction of the temporary fails, and when the move
  assignment of the shift fails: the handler calls \<^verbatim>\<open>operator delete\<close> on \<^verbatim>\<open>end()\<close>,
  which \<^verbatim>\<open>operator new\<close> never returned. It neither destroys the element of the slot
  \<open>size\<close> nor lets the exception through.
\<close>

theorem emplace_failure_is_undefined:
  "vec_inv (world123 4 [True]) 0 \<and>
   Emplace T_int 0 (Ptr 0 1) 9 (world123 4 [True]) = Undefined \<and>
   Emplace T_int 0 (Ptr 0 1) 9 (world123 4 [False, True]) = Undefined"
  by (simp add: Emplace_def example_defs run_defs)

section \<open>Reserve\<close>

text \<open>
  On a well-formed vector, \<^verbatim>\<open>Reserve(nc)\<close> with \<open>nc\<close> at most the capacity returns
  and changes nothing at all. With a larger \<open>nc\<close> whose byte count \<^verbatim>\<open>nc * sizeof(T)\<close>
  does not wrap, it returns unless an allocation or an element operation is scheduled to
  fail, and whenever it returns the capacity is exactly \<open>nc\<close>, the size is what it was,
  and the elements have the values and the order they had (and the vector is well formed).
\<close>

theorem reserve_sets_capacity:
  assumes "vec_inv w this"
  shows "(nc \<le> Capacity this w \<longrightarrow> Reserve T this nc w = Return () w) \<and>
         (Capacity this w < nc \<and> allocatable T nc \<longrightarrow>
            (case Reserve T this nc w of
               Return r w' \<Rightarrow>
                 Capacity this w' = nc \<and> Size this w' = Size this w \<and> elems w' this = elems w this
                 \<and> vec_inv w' this
             | _ \<Rightarrow> True \<in> set (faults w)))"
proof (intro conjI impI)
  assume "nc \<le> Capacity this w"
  then show "Reserve T this nc w = Return () w"
    by (simp add: Reserve_noop Capacity_def RawMemory_Capacity_def)
next
  assume a: "Capacity this w < nc \<and> allocatable T nc"
  then have gt: "capacity' (data' (vectors w this)) < nc"
    by (simp add: Capacity_def RawMemory_Capacity_def)
  from a have al: "allocatable T nc" by simp
  show "case Reserve T this nc w of
          Return r w' \<Rightarrow>
            Capacity this w' = nc \<and> Size this w' = Size this w \<and> elems w' this = elems w this
            \<and> vec_inv w' this
        | _ \<Rightarrow> True \<in> set (faults w)"
    using Reserve_realloc [OF assms gt al]
    by (auto split: result.splits simp: Capacity_def Size_def RawMemory_Capacity_def)
qed

theorem reserve_sets_capacity_witness:
  "vec_inv (world123 3 []) 0 \<and> allocatable T_move_only 7 \<and>
   Reserve T_move_only 0 2 (world123 3 []) = Return () (world123 3 []) \<and>
   (case Reserve T_move_only 0 7 (world123 3 []) of
      Return r w' \<Rightarrow> Capacity 0 w' = 7 \<and> Size 0 w' = 3 \<and> elems w' 0 = [1, 2, 3]
    | _ \<Rightarrow> False)"
proof -
  have inv: "vec_inv (world123 3 []) 0" by (simp add: example_defs run_defs)
  have c: "Capacity 0 (world123 3 []) = 3" "Size 0 (world123 3 []) = 3"
    "elems (world123 3 []) 0 = [1, 2, 3]" "faults (world123 3 []) = []"
    by (simp_all add: example_defs run_defs)
  have al: "allocatable T_move_only 7" by (simp add: allocatable_def T_move_only_def)
  from reserve_sets_capacity [OF inv, of 2 T_move_only] reserve_sets_capacity [OF inv, of 7 T_move_only]
  show ?thesis using inv al by (auto simp: c split: result.splits)
qed

text \<open>
  C4. \<^verbatim>\<open>Reserve\<close> does not set the capacity to every requested capacity. On the vector
  \<open>[1, 2, 3]\<close> of \<^verbatim>\<open>int\<close> (four bytes each), \<^verbatim>\<open>Reserve(2^62 + 1)\<close> asks
  \<^verbatim>\<open>operator new\<close> for \<^verbatim>\<open>(2^62 + 1) * sizeof(int)\<close> bytes, a product that wraps to \<open>4\<close>:
  the new buffer has one slot and a recorded capacity of \<open>2^62 + 1\<close>, and the relocation
  of the second element writes past its end. The behaviour is undefined.
\<close>

theorem reserve_byte_count_wraps:
  "vec_inv (world123 3 []) 0 \<and> Capacity 0 (world123 3 []) < 2 ^ 62 + 1 \<and>
   (case RawMemory_ctor T_int (2 ^ 62 + 1) (world123 3 []) of
      Return m w' \<Rightarrow> m = \<lparr>buffer' = Ptr 1 0, capacity' = 2 ^ 62 + 1\<rparr> \<and> heap w' ! 1 = Some [None]
    | _ \<Rightarrow> False) \<and>
   Reserve T_int 0 (2 ^ 62 + 1) (world123 3 []) = Undefined"
  by (simp add: Reserve_def example_defs run_defs numeral_3_eq_3)

section \<open>Resize\<close>

text \<open>
  On a well-formed vector, \<^verbatim>\<open>Resize(m)\<close> with \<open>m\<close> the size returns and changes
  nothing. With \<open>m\<close> below the size it returns, with size \<open>m\<close>, the same buffer and
  capacity and no allocation; the slots below \<open>m\<close> are what they were and all the
  others are raw, so exactly the elements at \<open>m, \<dots>, size - 1\<close> were destroyed. With \<open>m\<close>
  above the size and a byte count \<^verbatim>\<open>m * sizeof(T)\<close> that does not wrap, it returns unless
  an allocation or an element operation is scheduled to fail, and whenever it returns the
  size is \<open>m\<close> and the elements are the old ones, followed by \<open>m - size\<close>
  value-initialized ones.
\<close>

theorem resize_cases:
  assumes "vec_inv w this"
  shows "(m = Size this w \<longrightarrow> Resize T this m w = Return () w) \<and>
         (m < Size this w \<longrightarrow>
            (\<exists>w'. Resize T this m w = Return () w' \<and> Size this w' = m
               \<and> Capacity this w' = Capacity this w
               \<and> buffer' (data' (vectors w' this)) = buffer' (data' (vectors w this))
               \<and> length (heap w') = length (heap w)
               \<and> elems w' this = take m (elems w this)
               \<and> slots w' this = take m (slots w this) @ replicate (Capacity this w - m) None)) \<and>
         (Size this w < m \<and> allocatable T m \<longrightarrow>
            (case Resize T this m w of
               Return r w' \<Rightarrow>
                 Size this w' = m
                 \<and> elems w' this = elems w this @ replicate (m - Size this w) (value_initialized T)
             | _ \<Rightarrow> True \<in> set (faults w)))"
proof (intro conjI impI)
  assume "m = Size this w"
  then show "Resize T this m w = Return () w"
    by (simp add: Resize_def Size_def)
next
  assume "m < Size this w"
  then have lt: "m < size' (vectors w this)" by (simp add: Size_def)
  from Resize_shrink [OF assms lt, of T] obtain w' where
    w': "Resize T this m w = Return () w'"
      "vectors w' = (vectors w)(this := (vectors w this)\<lparr>size' := m\<rparr>)"
      "shape w' = shape w" "elems w' this = take m (elems w this)"
      "slots w' this = take m (slots w this) @ replicate (capacity' (data' (vectors w this)) - m) None"
    by blast
  have "length (heap w') = length (heap w)" using w'(3) by (metis length_shape)
  with w' show "\<exists>w'. Resize T this m w = Return () w' \<and> Size this w' = m
               \<and> Capacity this w' = Capacity this w
               \<and> buffer' (data' (vectors w' this)) = buffer' (data' (vectors w this))
               \<and> length (heap w') = length (heap w)
               \<and> elems w' this = take m (elems w this)
               \<and> slots w' this = take m (slots w this) @ replicate (Capacity this w - m) None"
    by (simp add: Size_def Capacity_def RawMemory_Capacity_def)
next
  assume a: "Size this w < m \<and> allocatable T m"
  then have gt: "size' (vectors w this) < m" by (simp add: Size_def)
  from a have al: "allocatable T m" by simp
  show "case Resize T this m w of
          Return r w' \<Rightarrow>
            Size this w' = m
            \<and> elems w' this = elems w this @ replicate (m - Size this w) (value_initialized T)
        | _ \<Rightarrow> True \<in> set (faults w)"
    using Resize_grow [OF assms gt al] by (auto split: result.splits simp: Size_def)
qed

theorem resize_cases_witness:
  "vec_inv (world123 3 []) 0 \<and> allocatable T_int 5 \<and>
   Resize T_int 0 3 (world123 3 []) = Return () (world123 3 []) \<and>
   (\<exists>w'. Resize T_int 0 1 (world123 3 []) = Return () w' \<and> Size 0 w' = 1 \<and> Capacity 0 w' = 3
      \<and> elems w' 0 = [1] \<and> slots w' 0 = [Some 1, None, None]) \<and>
   (case Resize T_int 0 5 (world123 3 []) of
      Return r w' \<Rightarrow> Size 0 w' = 5 \<and> elems w' 0 = [1, 2, 3, 0, 0]
    | _ \<Rightarrow> False)"
proof -
  have inv: "vec_inv (world123 3 []) 0" by (simp add: example_defs run_defs)
  have c: "Capacity 0 (world123 3 []) = 3" "Size 0 (world123 3 []) = 3"
    "elems (world123 3 []) 0 = [1, 2, 3]" "faults (world123 3 []) = []"
    "slots (world123 3 []) 0 = [Some 1, Some 2, Some 3]" "value_initialized T_int = 0"
    by (simp_all add: example_defs run_defs)
  have r2: "replicate 2 x = [x, x]" for x :: "'b" by (simp add: numeral_2_eq_2)
  have al: "allocatable T_int 5" by (simp add: allocatable_def T_int_def)
  have a: "Resize T_int 0 3 (world123 3 []) = Return () (world123 3 [])"
    using resize_cases [OF inv, of 3 T_int] by (simp add: c)
  have b: "\<exists>w'. Resize T_int 0 1 (world123 3 []) = Return () w' \<and> Size 0 w' = 1 \<and> Capacity 0 w' = 3
      \<and> elems w' 0 = [1] \<and> slots w' 0 = [Some 1, None, None]"
    using resize_cases [OF inv, of 1 T_int] by (simp add: c r2) blast
  have d: "case Resize T_int 0 5 (world123 3 []) of
      Return r w' \<Rightarrow> Size 0 w' = 5 \<and> elems w' 0 = [1, 2, 3, 0, 0]
    | _ \<Rightarrow> False"
    using resize_cases [OF inv, of 5 T_int] al by (simp add: c r2 split: result.splits)
  from inv al a b d show ?thesis by blast
qed

text \<open>
  C6. \<^verbatim>\<open>Resize\<close> to a larger size does not always append elements. On the vector
  \<open>[1, 2, 3]\<close> of \<^verbatim>\<open>int\<close>, \<^verbatim>\<open>Resize(2^62 + 1)\<close> calls \<^verbatim>\<open>Reserve(2^62 + 1)\<close>, whose
  byte count wraps to \<open>4\<close>: the existing elements are relocated past the end of a
  buffer of one slot. The behaviour is undefined.
\<close>

theorem resize_byte_count_wraps:
  "vec_inv (world123 3 []) 0 \<and> Size 0 (world123 3 []) < 2 ^ 62 + 1 \<and>
   Resize T_int 0 (2 ^ 62 + 1) (world123 3 []) = Undefined"
  by (simp add: Resize_def Reserve_def example_defs run_defs numeral_3_eq_3)

section \<open>Insert and Erase\<close>

text \<open>
  On a well-formed vector and for a position \<open>begin() + p\<close> with \<open>p\<close> in the range of
  the \<^verbatim>\<open>int pos_index\<close> of the code: \<^verbatim>\<open>Insert\<close> with \<open>p\<close> at most the size (and a
  byte count of the grown buffer that does not wrap) returns unless an allocation or an
  element operation is scheduled to fail, and whenever it returns the elements are the
  old ones with the new value put in at index \<open>p\<close> (those at \<open>p, \<dots>, size - 1\<close> are one
  slot later), the size is one more, and the result points at slot \<open>p\<close>, which holds
  the new value. \<^verbatim>\<open>Erase\<close> with \<open>p\<close> below the size returns unless a move assignment is
  scheduled to fail, and whenever it returns the elements are the old ones without the one
  at \<open>p\<close> (those after \<open>p\<close> are one slot earlier), the size is one less, the buffer
  and the capacity are what they were and nothing was allocated, and the result points at
  slot \<open>p\<close>: at the element that followed the removed one, or at \<^verbatim>\<open>end()\<close> when there
  was none. The instance below is the insertion of \<open>9\<close> at \<open>1\<close> into \<open>[1, 2, 3]\<close>, with
  and without growth, and the removal at \<open>1\<close> from \<open>[1, 9, 2, 3]\<close>.
\<close>

theorem insert_erase_positions:
  assumes "vec_inv w this" and "p < 2 ^ 31"
  shows "(p \<le> Size this w \<and> allocatable T (if Size this w = 0 then 1 else Size this w * 2) \<longrightarrow>
            (case Insert T this (ptr_plus (begin' (vectors w this)) (int p)) x w of
               Return r w' \<Rightarrow>
                 elems w' this = take p (elems w this) @ x # drop p (elems w this)
                 \<and> Size this w' = Size this w + 1
                 \<and> r = ptr_plus (begin' (vectors w' this)) (int p)
                 \<and> slot w' r = Some (Some x)
                 \<and> vec_inv w' this
             | _ \<Rightarrow> True \<in> set (faults w))) \<and>
         (p < Size this w \<longrightarrow>
            (case Erase T this (ptr_plus (begin' (vectors w this)) (int p)) w of
               Return r w' \<Rightarrow>
                 elems w' this = take p (elems w this) @ drop (Suc p) (elems w this)
                 \<and> Size this w' = Size this w - 1
                 \<and> data' (vectors w' this) = data' (vectors w this)
                 \<and> length (heap w') = length (heap w)
                 \<and> r = ptr_plus (begin' (vectors w' this)) (int p)
                 \<and> (if Suc p < Size this w then slot w' r = Some (Some (elems w this ! Suc p))
                     else r = end' (vectors w' this))
                 \<and> vec_inv w' this
             | _ \<Rightarrow> True \<in> set (faults w)))"
proof (intro conjI impI)
  assume a: "p \<le> Size this w \<and> allocatable T (if Size this w = 0 then 1 else Size this w * 2)"
  then have pn: "p \<le> size' (vectors w this)" by (simp add: Size_def)
  from a have al: "allocatable T (if size' (vectors w this) = 0 then 1 else size' (vectors w this) * 2)"
    unfolding Size_def by (rule conjunct2)
  have post: "elems w' this = take p (elems w this) @ x # drop p (elems w this)
                 \<and> Size this w' = Size this w + 1
                 \<and> r = ptr_plus (begin' (vectors w' this)) (int p)
                 \<and> slot w' r = Some (Some x)
                 \<and> vec_inv w' this"
    if inv': "vec_inv w' this"
      and el: "elems w' this = take p (elems w this) @ x # drop p (elems w this)"
      and sz: "size' (vectors w' this) = Suc (size' (vectors w this))"
      and r: "r = ptr_plus (begin' (vectors w' this)) (int p)"
    for r and w' :: "'a world"
  proof -
    have "0 < size' (vectors w' this)" by (simp add: sz)
    with inv' obtain b where buf: "buffer' (data' (vectors w' this)) = Ptr b 0"
      by (rule vec_inv_nonempty)
    have rp: "r = Ptr b p" by (simp add: r begin'_def GetAddress_def buf)
    have "p < size' (vectors w' this)" using pn by (simp add: sz)
    from live_elems [OF inv' buf this] have "slot w' r = Some (Some ((take p (elems w this) @ x # drop p (elems w this)) ! p))"
      by (simp add: rp el)
    moreover have "p \<le> length (elems w this)" using pn length_elems [OF assms(1)] by simp
    ultimately have "slot w' r = Some (Some x)" by (simp only: insert_nth_at)
    then show ?thesis using inv' el sz r by (simp add: Size_def)
  qed
  show "case Insert T this (ptr_plus (begin' (vectors w this)) (int p)) x w of
               Return r w' \<Rightarrow>
                 elems w' this = take p (elems w this) @ x # drop p (elems w this)
                 \<and> Size this w' = Size this w + 1
                 \<and> r = ptr_plus (begin' (vectors w' this)) (int p)
                 \<and> slot w' r = Some (Some x)
                 \<and> vec_inv w' this
             | _ \<Rightarrow> True \<in> set (faults w)"
  proof (cases "capacity' (data' (vectors w this)) = size' (vectors w this)")
    case True
    show ?thesis
      unfolding Insert_def
      by (rule weaken_spec [OF Emplace_grows [OF assms(1) True pn assms(2) al, where x=x]]) (rule post, simp_all)
  next
    case False
    from assms(1) have "size' (vectors w this) \<le> capacity' (data' (vectors w this))"
      by (cases "buffer' (data' (vectors w this))") (simp_all add: vec_inv_Null vec_inv_view vec_inv_not_Wild)
    with False have lt: "size' (vectors w this) < capacity' (data' (vectors w this))" by simp
    show ?thesis
      unfolding Insert_def
      by (rule weaken_spec [OF Emplace_in_place [OF assms(1) lt pn assms(2), where T=T and x=x]]) (rule post, simp_all)
  qed
next
  assume "p < Size this w"
  then have pn: "p < size' (vectors w this)" by (simp add: Size_def)
  then have n0: "0 < size' (vectors w this)" by simp
  with assms(1) obtain b where buf: "buffer' (data' (vectors w this)) = Ptr b 0"
    by (rule vec_inv_nonempty)
  have lx: "length (elems w this) = size' (vectors w this)" by (rule length_elems [OF assms(1)])
  show "case Erase T this (ptr_plus (begin' (vectors w this)) (int p)) w of
               Return r w' \<Rightarrow>
                 elems w' this = take p (elems w this) @ drop (Suc p) (elems w this)
                 \<and> Size this w' = Size this w - 1
                 \<and> data' (vectors w' this) = data' (vectors w this)
                 \<and> length (heap w') = length (heap w)
                 \<and> r = ptr_plus (begin' (vectors w' this)) (int p)
                 \<and> (if Suc p < Size this w then slot w' r = Some (Some (elems w this ! Suc p))
                     else r = end' (vectors w' this))
                 \<and> vec_inv w' this
             | _ \<Rightarrow> True \<in> set (faults w)"
  proof (rule weaken_spec [OF Erase_spec [OF assms(1) pn assms(2), where T=T]])
    fix r and w' :: "'a world"
    assume "vec_inv w' this
             \<and> elems w' this = take p (elems w this) @ drop (Suc p) (elems w this)
             \<and> vectors w' = (vectors w)(this := (vectors w this)\<lparr>size' := size' (vectors w this) - 1\<rparr>)
             \<and> r = ptr_plus (begin' (vectors w' this)) (int p)
             \<and> shape w' = shape w
             \<and> set (faults w') \<subseteq> set (faults w)"
    then have inv': "vec_inv w' this"
      and el: "elems w' this = take p (elems w this) @ drop (Suc p) (elems w this)"
      and vw: "vectors w' = (vectors w)(this := (vectors w this)\<lparr>size' := size' (vectors w this) - 1\<rparr>)"
      and r: "r = ptr_plus (begin' (vectors w' this)) (int p)"
      and shw: "shape w' = shape w" by simp_all
    have lw: "length (heap w') = length (heap w)" using shw by (metis length_shape)
    have buf': "buffer' (data' (vectors w' this)) = Ptr b 0" using buf by (simp add: vw)
    have rp: "r = Ptr b p" by (simp add: r begin'_def GetAddress_def buf')
    have last': "(if Suc p < Size this w then slot w' r = Some (Some (elems w this ! Suc p))
                     else r = end' (vectors w' this))"
    proof (cases "Suc p < Size this w")
      case True
      then have "p < size' (vectors w' this)" by (simp add: vw Size_def)
      from live_elems [OF inv' buf' this]
      have "slot w' r = Some (Some ((take p (elems w this) @ drop (Suc p) (elems w this)) ! p))"
        by (simp add: rp el)
      moreover have "Suc p < length (elems w this)" using True by (simp add: lx Size_def)
      ultimately have "slot w' r = Some (Some (elems w this ! Suc p))" by (simp only: erase_nth_at)
      then show ?thesis using True by simp
    next
      case False
      then have "size' (vectors w this) - 1 = p" using pn by (simp add: Size_def)
      then have "r = end' (vectors w' this)" by (simp add: rp end'_def GetAddress_def buf vw)
      then show ?thesis using False by simp
    qed
    show "elems w' this = take p (elems w this) @ drop (Suc p) (elems w this)
                 \<and> Size this w' = Size this w - 1
                 \<and> data' (vectors w' this) = data' (vectors w this)
                 \<and> length (heap w') = length (heap w)
                 \<and> r = ptr_plus (begin' (vectors w' this)) (int p)
                 \<and> (if Suc p < Size this w then slot w' r = Some (Some (elems w this ! Suc p))
                     else r = end' (vectors w' this))
                 \<and> vec_inv w' this"
      using inv' el r lw last' by (simp add: vw Size_def)
  qed
qed

theorem insert_erase_positions_witness:
  "vec_inv (world123 4 []) 0 \<and> vec_inv (world123 3 []) 0 \<and> vec_inv world1923 0 \<and> (1::nat) < 2 ^ 31 \<and>
   allocatable T_int 6 \<and>
   (case Insert T_int 0 (Ptr 0 1) 9 (world123 4 []) of
      Return r w' \<Rightarrow> elems w' 0 = [1, 9, 2, 3] \<and> Size 0 w' = 4 \<and> slot w' r = Some (Some 9)
    | _ \<Rightarrow> False) \<and>
   (case Insert T_int 0 (Ptr 0 1) 9 (world123 3 []) of
      Return r w' \<Rightarrow> elems w' 0 = [1, 9, 2, 3] \<and> Size 0 w' = 4 \<and> slot w' r = Some (Some 9)
    | _ \<Rightarrow> False) \<and>
   (case Erase T_int 0 (Ptr 0 1) world1923 of
      Return r w' \<Rightarrow> elems w' 0 = [1, 2, 3] \<and> Size 0 w' = 3 \<and> r = Ptr 0 1 \<and> slot w' r = Some (Some 2)
    | _ \<Rightarrow> False)"
proof -
  have inv4: "vec_inv (world123 4 []) 0" by (simp add: example_defs run_defs)
  have inv3: "vec_inv (world123 3 []) 0" by (simp add: example_defs run_defs)
  have inv: "vec_inv world1923 0" by (simp add: example_defs run_defs)
  have small: "(1::nat) < 2 ^ 31" by simp
  have al: "allocatable T_int 6" by (simp add: allocatable_def T_int_def)
  have c: "Size 0 (world123 cap []) = 3" "elems (world123 3 []) 0 = [1, 2, 3]" "elems (world123 4 []) 0 = [1, 2, 3]"
    "faults (world123 cap []) = []" "data' (vectors (world123 cap []) 0) = \<lparr>buffer' = Ptr 0 0, capacity' = cap\<rparr>"
    "Size 0 world1923 = 4" "elems world1923 0 = [1, 9, 2, 3]" "faults world1923 = []"
    "data' (vectors world1923 0) = \<lparr>buffer' = Ptr 0 0, capacity' = 4\<rparr>" for cap
    by (simp_all add: example_defs run_defs)
  have a: "case Insert T_int 0 (Ptr 0 1) 9 (world123 4 []) of
      Return r w' \<Rightarrow> elems w' 0 = [1, 9, 2, 3] \<and> Size 0 w' = 4 \<and> slot w' r = Some (Some 9)
    | _ \<Rightarrow> False"
    using insert_erase_positions [OF inv4 small, where T=T_int and x=9, THEN conjunct1] al
    by (simp add: c begin'_def GetAddress_def split: result.splits)
  have b: "case Insert T_int 0 (Ptr 0 1) 9 (world123 3 []) of
      Return r w' \<Rightarrow> elems w' 0 = [1, 9, 2, 3] \<and> Size 0 w' = 4 \<and> slot w' r = Some (Some 9)
    | _ \<Rightarrow> False"
    using insert_erase_positions [OF inv3 small, where T=T_int and x=9, THEN conjunct1] al
    by (simp add: c begin'_def GetAddress_def split: result.splits)
  have d: "case Erase T_int 0 (Ptr 0 1) world1923 of
      Return r w' \<Rightarrow> elems w' 0 = [1, 2, 3] \<and> Size 0 w' = 3 \<and> r = Ptr 0 1 \<and> slot w' r = Some (Some 2)
    | _ \<Rightarrow> False"
    using insert_erase_positions [OF inv small, where T=T_int and x=0, THEN conjunct2]
    by (simp add: c begin'_def GetAddress_def split: result.splits)
  from inv4 inv3 inv small al a b d show ?thesis by blast
qed

text \<open>
  C7. \<^verbatim>\<open>Insert\<close> and \<^verbatim>\<open>Erase\<close> do not work at every position of a vector. On the
  well-formed vector of \<open>2^31 + 1\<close> elements and capacity \<open>2^31 + 2\<close>, at the position
  \<open>begin() + 2^31\<close> of its last element, \<^verbatim>\<open>int pos_index = pos - begin()\<close> is \<open>- 2^31\<close>,
  and \<^verbatim>\<open>begin() + pos_index\<close> lies before the buffer: the behaviour of both is
  undefined, though nothing is scheduled to fail.
\<close>

theorem position_beyond_int_is_undefined:
  "vec_inv (world_zeros (2 ^ 31 + 1) (2 ^ 31 + 2)) 0 \<and> (2 ^ 31 :: nat) < Size 0 (world_zeros (2 ^ 31 + 1) (2 ^ 31 + 2)) \<and>
   Insert T_int 0 (ptr_plus (begin' (vectors (world_zeros (2 ^ 31 + 1) (2 ^ 31 + 2)) 0)) (2 ^ 31)) 9
     (world_zeros (2 ^ 31 + 1) (2 ^ 31 + 2)) = Undefined \<and>
   Erase T_int 0 (ptr_plus (begin' (vectors (world_zeros (2 ^ 31 + 1) (2 ^ 31 + 2)) 0)) (2 ^ 31))
     (world_zeros (2 ^ 31 + 1) (2 ^ 31 + 2)) = Undefined"
proof -
  have a: "vec_inv (world_zeros (2 ^ 31 + 1) (2 ^ 31 + 2)) 0" by (rule vec_inv_zeros) simp
  have b: "(2 ^ 31 :: nat) < Size 0 (world_zeros (2 ^ 31 + 1) (2 ^ 31 + 2))"
    by (simp add: Size_def world_zeros_def)
  have c: "Erase T_int 0 (ptr_plus (begin' (vectors (world_zeros (2 ^ 31 + 1) (2 ^ 31 + 2)) 0)) (2 ^ 31))
     (world_zeros (2 ^ 31 + 1) (2 ^ 31 + 2)) = Undefined"
    by (simp add: Erase_def world_zeros_def begin'_def end'_def GetAddress_def ptr_plus_def ptr_diff_def to_int_def
        std_move_def range_length_def seq_def)
  have d: "Insert T_int 0 (ptr_plus (begin' (vectors (world_zeros (2 ^ 31 + 1) (2 ^ 31 + 2)) 0)) (2 ^ 31)) 9
     (world_zeros (2 ^ 31 + 1) (2 ^ 31 + 2)) = Undefined"
    by (simp add: Insert_def Emplace_def world_zeros_def T_int_def begin'_def end'_def GetAddress_def ptr_plus_def ptr_diff_def
        to_int_def RawMemory_Capacity_def RawMemory_index_def size_t_minus_def std_move_backward_def range_length_def
        seq_def catch_all_def T_ctor_def may_throw_def placement_new_def T_move_ctor_def slot_def nth_append
        construct_at_def put_def)
  from a b c d show ?thesis by blast
qed

section \<open>Growth on append\<close>



section \<open>A push that fails\<close>




end
